theory Spec2Isabelle
  imports Complex_Main "HOL-Library.Log_Nat"
begin

section \<open>The leaky bucket rate limiter\<close>

text \<open>
  The embedding follows \<^verbatim>\<open>problem_createLeakyBucketRateLimiter\<close> of
  \<^verbatim>\<open>problems/rate-limiter-leaky-bucket.ts\<close>.

  The closure returned by the constructor captures the two configuration constants and
  the mutable \<^verbatim>\<open>Map\<close>; it is the record \<open>limiter\<close>. A call of \<^verbatim>\<open>allowRequest\<close>
  takes the limiter and returns the limiter after the call together with the boolean.

  The program is embedded twice, statement by statement the same, with two readings of
  the TypeScript \<^verbatim>\<open>number\<close>.

  In the first reading (\<open>limiter\<close>, \<open>allowRequest\<close>) a number is an exact rational:
  \<open>+\<close>, \<open>-\<close>, \<open>*\<close>, \<open>/\<close>, \<open>Math.max\<close> and the comparisons are the exact ones, and
  \<open>Math.floor\<close> is the integer floor read back as a number. This is an idealisation,
  since doubles round. It carries the properties that no rounding touches: construction,
  the first call of a key, the frame of a call, the isolation of keys, the scenario on
  whole numbers, and the bound on the queue size, whose leak count is a whole number
  that is not negative in either reading.

  In the second reading (\<open>limiter64\<close>, \<open>allowRequest64\<close>) a number is an IEEE 754
  binary64 value and every operation rounds as the machine does. It carries the
  properties that depend on the value of the leak count and of the queue size: the
  result of a call for a key with a record, the comparison of two capacities, a
  timestamp that goes back, and a rejected call.
\<close>

subsection \<open>Exact numbers\<close>

record userLimit =
  lastLeakTime :: rat
  queueSize :: rat

record limiter =
  bucketCapacity :: rat
  leakRatePerSecond :: rat
  userLimits :: "string \<rightharpoonup> userLimit"

datatype js_error = Error string

text \<open>
  The constructor has no check and no \<^verbatim>\<open>throw\<close>: it allocates the empty map and returns
  the object. Its result type still says "an error or a limiter", so that a statement
  about raising at construction can be written down.
\<close>

definition problem_createLeakyBucketRateLimiter :: "rat \<Rightarrow> rat \<Rightarrow> js_error + limiter" where
  "problem_createLeakyBucketRateLimiter capacity rate =
     Inr \<lparr>bucketCapacity = capacity, leakRatePerSecond = rate, userLimits = Map.empty\<rparr>"

text \<open>
  \<^verbatim>\<open>Math.floor((timeSinceLastLeak / 1000) * leakRatePerSecond)\<close> with
  \<^verbatim>\<open>timeSinceLastLeak = timestamp - userLimit.lastLeakTime\<close>.
\<close>

definition requestsToLeak :: "rat \<Rightarrow> rat \<Rightarrow> rat \<Rightarrow> rat" where
  "requestsToLeak rate lastLeak timestamp =
     (let timeSinceLastLeak = timestamp - lastLeak
      in of_int \<lfloor>(timeSinceLastLeak / 1000) * rate\<rfloor>)"

text \<open>
  \<^verbatim>\<open>allowRequest(userId, timestamp)\<close>, statement by statement: the lookup, the branch
  for an unseen user, the leak, the conditional advance of \<^verbatim>\<open>lastLeakTime\<close>, and the
  admission test. The record held by the map is mutated in place in the source; here
  the updated record is stored back under the same key.
\<close>

definition allowRequest :: "limiter \<Rightarrow> string \<Rightarrow> rat \<Rightarrow> limiter \<times> bool" where
  "allowRequest L userId timestamp =
     (case userLimits L userId of
        None \<Rightarrow>
          (L\<lparr>userLimits := (userLimits L)(userId \<mapsto> \<lparr>lastLeakTime = timestamp, queueSize = 1\<rparr>)\<rparr>,
           True)
      | Some userLimit \<Rightarrow>
          (let leak = requestsToLeak (leakRatePerSecond L) (lastLeakTime userLimit) timestamp;
               u1 = userLimit\<lparr>queueSize := max 0 (queueSize userLimit - leak)\<rparr>;
               u2 = (if leak > 0 then u1\<lparr>lastLeakTime := timestamp\<rparr> else u1)
           in if queueSize u2 < bucketCapacity L
              then (L\<lparr>userLimits := (userLimits L)(userId \<mapsto> u2\<lparr>queueSize := queueSize u2 + 1\<rparr>)\<rparr>,
                    True)
              else (L\<lparr>userLimits := (userLimits L)(userId \<mapsto> u2)\<rparr>, False)))"


fun results :: "limiter \<Rightarrow> (string \<times> rat) list \<Rightarrow> bool list" where
  "results L [] = []"
| "results L (c # cs) =
     snd (allowRequest L (fst c) (snd c)) # results (fst (allowRequest L (fst c) (snd c))) cs"

text \<open>The number of admitted calls among the results.\<close>

definition admitted :: "bool list \<Rightarrow> nat" where
  "admitted bs = length (filter (\<lambda>b. b) bs)"

text \<open>The calls of one key, and the results that belong to the calls of one key.\<close>

definition callsFor :: "string \<Rightarrow> (string \<times> rat) list \<Rightarrow> (string \<times> rat) list" where
  "callsFor k calls = filter (\<lambda>c. fst c = k) calls"

definition resultsFor :: "string \<Rightarrow> (string \<times> rat) list \<Rightarrow> bool list \<Rightarrow> bool list" where
  "resultsFor k calls bs = map snd (filter (\<lambda>p. fst (fst p) = k) (zip calls bs))"

text \<open>
  Timestamps are non-decreasing per key: no call has a later call of the same key with
  a smaller timestamp.
\<close>

fun nondecreasingPerKey :: "(string \<times> rat) list \<Rightarrow> bool" where
  "nondecreasingPerKey [] = True"
| "nondecreasingPerKey (c # cs) =
     (list_all (\<lambda>d. fst d = fst c \<longrightarrow> snd c \<le> snd d) cs \<and> nondecreasingPerKey cs)"

subsection \<open>Binary64 numbers\<close>

text \<open>
  A double is a finite value, one of the two infinities, or NaN. The finite values are
  the rationals \<open>m * 2 ^ e\<close> with \<open>\<bar>m\<bar> < 2 ^ 53\<close> and \<open>- 1074 \<le> e \<le> 971\<close>; the result of
  every operation below is one of them, and a literal of the source (\<open>0\<close>, \<open>1\<close>,
  \<open>1000\<close>) is one. The sign of zero is not represented: the program subtracts, divides by
  1000, multiplies, floors, compares and takes \<^verbatim>\<open>Math.max\<close> with 0, and none of these
  tells \<open>-0\<close> from \<open>0\<close> other than in the sign of a zero result.
\<close>

datatype number = Finite rat | PosInf | NegInf | NaN

text \<open>
  Rounding to nearest, ties to even. \<open>roundHalfEven\<close> rounds a rational to an integer.
  \<open>ilog2 a\<close> is the exponent \<open>e\<close> with \<open>2 ^ e \<le> a < 2 ^ (e + 1)\<close>. \<open>roundMagnitude\<close> rounds
  a positive rational to 53 significant bits, or to a multiple of \<open>2 ^ (- 1074)\<close> below
  \<open>2 ^ (- 1022)\<close>, where doubles are subnormal. \<open>round64\<close> puts the sign back and
  overflows to an infinity when the rounded magnitude reaches \<open>2 ^ 1024\<close>.
\<close>

definition roundHalfEven :: "rat \<Rightarrow> int" where
  "roundHalfEven x =
     (let f = \<lfloor>x\<rfloor>; d = x - of_int f
      in if d < 1 / 2 then f else if 1 / 2 < d then f + 1 else if even f then f else f + 1)"

definition ilog2 :: "rat \<Rightarrow> int" where
  "ilog2 a = (if 1 \<le> a then bitlen \<lfloor>a\<rfloor> - 1 else - bitlen (\<lceil>1 / a\<rceil> - 1))"

definition roundMagnitude :: "rat \<Rightarrow> rat" where
  "roundMagnitude a =
     (let e = max (ilog2 a) (- 1022);
          u = 2 powi (e - 52)
      in of_int (roundHalfEven (a / u)) * u)"

definition round64 :: "rat \<Rightarrow> number" where
  "round64 x =
     (if x = 0 then Finite 0
      else
        let y = roundMagnitude \<bar>x\<bar>
        in if 2 ^ 1024 \<le> y then (if x < 0 then NegInf else PosInf)
           else Finite (if x < 0 then - y else y))"

text \<open>
  The operations of the program: \<^verbatim>\<open>a - b\<close>, \<^verbatim>\<open>a + b\<close> (the \<^verbatim>\<open>queueSize++\<close>),
  \<^verbatim>\<open>a * b\<close>, \<^verbatim>\<open>a / 1000\<close>, \<^verbatim>\<open>Math.floor\<close>, \<^verbatim>\<open>a < b\<close> (and \<^verbatim>\<open>a > b\<close>, with the
  arguments exchanged), \<^verbatim>\<open>a <= b\<close> and \<^verbatim>\<open>Math.max\<close>. A finite result is the exact
  result rounded; the other cases are those of IEEE 754: NaN propagates, the difference
  of two equal infinities and the product of an infinity and zero are NaN, every
  comparison with NaN is false.
\<close>

fun sub64 :: "number \<Rightarrow> number \<Rightarrow> number" where
  "sub64 (Finite a) (Finite b) = round64 (a - b)"
| "sub64 NaN _ = NaN"
| "sub64 _ NaN = NaN"
| "sub64 PosInf PosInf = NaN"
| "sub64 NegInf NegInf = NaN"
| "sub64 PosInf _ = PosInf"
| "sub64 NegInf _ = NegInf"
| "sub64 (Finite a) PosInf = NegInf"
| "sub64 (Finite a) NegInf = PosInf"

fun add64 :: "number \<Rightarrow> number \<Rightarrow> number" where
  "add64 (Finite a) (Finite b) = round64 (a + b)"
| "add64 NaN _ = NaN"
| "add64 _ NaN = NaN"
| "add64 PosInf NegInf = NaN"
| "add64 NegInf PosInf = NaN"
| "add64 PosInf _ = PosInf"
| "add64 NegInf _ = NegInf"
| "add64 (Finite a) PosInf = PosInf"
| "add64 (Finite a) NegInf = NegInf"

fun mul64 :: "number \<Rightarrow> number \<Rightarrow> number" where
  "mul64 (Finite a) (Finite b) = round64 (a * b)"
| "mul64 NaN _ = NaN"
| "mul64 _ NaN = NaN"
| "mul64 PosInf (Finite b) = (if b = 0 then NaN else if 0 < b then PosInf else NegInf)"
| "mul64 NegInf (Finite b) = (if b = 0 then NaN else if 0 < b then NegInf else PosInf)"
| "mul64 (Finite a) PosInf = (if a = 0 then NaN else if 0 < a then PosInf else NegInf)"
| "mul64 (Finite a) NegInf = (if a = 0 then NaN else if 0 < a then NegInf else PosInf)"
| "mul64 PosInf PosInf = PosInf"
| "mul64 NegInf NegInf = PosInf"
| "mul64 PosInf NegInf = NegInf"
| "mul64 NegInf PosInf = NegInf"

fun divideBy1000 :: "number \<Rightarrow> number" where
  "divideBy1000 (Finite a) = round64 (a / 1000)"
| "divideBy1000 x = x"

fun floor64 :: "number \<Rightarrow> number" where
  "floor64 (Finite a) = Finite (of_int \<lfloor>a\<rfloor>)"
| "floor64 x = x"

fun less64 :: "number \<Rightarrow> number \<Rightarrow> bool" where
  "less64 (Finite a) (Finite b) = (a < b)"
| "less64 NaN _ = False"
| "less64 _ NaN = False"
| "less64 PosInf _ = False"
| "less64 _ NegInf = False"
| "less64 NegInf _ = True"
| "less64 (Finite a) PosInf = True"

fun max64 :: "number \<Rightarrow> number \<Rightarrow> number" where
  "max64 NaN _ = NaN"
| "max64 _ NaN = NaN"
| "max64 a b = (if less64 a b then b else a)"

fun le64 :: "number \<Rightarrow> number \<Rightarrow> bool" where
  "le64 (Finite a) (Finite b) = (a \<le> b)"
| "le64 NaN _ = False"
| "le64 _ NaN = False"
| "le64 NegInf _ = True"
| "le64 _ PosInf = True"
| "le64 PosInf _ = False"
| "le64 (Finite a) NegInf = False"

text \<open>
  The state and the program, as in the first reading. The constructor stores the two
  numbers as they are, whatever they are.
\<close>

record userLimit64 =
  lastLeakTime64 :: number
  queueSize64 :: number

record limiter64 =
  bucketCapacity64 :: number
  leakRatePerSecond64 :: number
  userLimits64 :: "string \<rightharpoonup> userLimit64"

definition problem_createLeakyBucketRateLimiter64 :: "number \<Rightarrow> number \<Rightarrow> js_error + limiter64" where
  "problem_createLeakyBucketRateLimiter64 capacity rate =
     Inr \<lparr>bucketCapacity64 = capacity, leakRatePerSecond64 = rate, userLimits64 = Map.empty\<rparr>"

definition requestsToLeak64 :: "number \<Rightarrow> number \<Rightarrow> number \<Rightarrow> number" where
  "requestsToLeak64 rate lastLeak timestamp =
     (let timeSinceLastLeak = sub64 timestamp lastLeak
      in floor64 (mul64 (divideBy1000 timeSinceLastLeak) rate))"

definition allowRequest64 :: "limiter64 \<Rightarrow> string \<Rightarrow> number \<Rightarrow> limiter64 \<times> bool" where
  "allowRequest64 L userId timestamp =
     (case userLimits64 L userId of
        None \<Rightarrow>
          (L\<lparr>userLimits64 := (userLimits64 L)(userId \<mapsto>
               \<lparr>lastLeakTime64 = timestamp, queueSize64 = Finite 1\<rparr>)\<rparr>,
           True)
      | Some userLimit \<Rightarrow>
          (let leak = requestsToLeak64 (leakRatePerSecond64 L) (lastLeakTime64 userLimit) timestamp;
               u1 = userLimit\<lparr>queueSize64 := max64 (Finite 0) (sub64 (queueSize64 userLimit) leak)\<rparr>;
               u2 = (if less64 (Finite 0) leak then u1\<lparr>lastLeakTime64 := timestamp\<rparr> else u1)
           in if less64 (queueSize64 u2) (bucketCapacity64 L)
              then (L\<lparr>userLimits64 := (userLimits64 L)(userId \<mapsto>
                        u2\<lparr>queueSize64 := add64 (queueSize64 u2) (Finite 1)\<rparr>)\<rparr>,
                    True)
              else (L\<lparr>userLimits64 := (userLimits64 L)(userId \<mapsto> u2)\<rparr>, False)))"

fun stateAfter64 :: "limiter64 \<Rightarrow> (string \<times> number) list \<Rightarrow> limiter64" where
  "stateAfter64 L [] = L"
| "stateAfter64 L (c # cs) = stateAfter64 (fst (allowRequest64 L (fst c) (snd c))) cs"

fun results64 :: "limiter64 \<Rightarrow> (string \<times> number) list \<Rightarrow> bool list" where
  "results64 L [] = []"
| "results64 L (c # cs) =
     snd (allowRequest64 L (fst c) (snd c)) # results64 (fst (allowRequest64 L (fst c) (snd c))) cs"

text \<open>
  Devices of the proof that admission is monotonic in the capacity while the queue sizes
  are exact. \<open>exactQueueSizes L calls\<close> says that after every one of the calls, made on
  \<open>L\<close> in order, the stored queue size of the key of the call is finite and below
  \<open>2 ^ 53\<close>. \<open>leakExact\<close> is the leak step on exact numbers and \<open>theFinite\<close> reads a
  finite number. \<open>dominated64 L1 L2\<close> compares two limiters that have served the same
  calls: the same leak rate, the larger capacity in \<open>L2\<close>, and every key with a record in
  both or in neither, with the same \<open>lastLeakTime\<close> and finite whole queue sizes of
  which the one in \<open>L2\<close> is the larger; \<open>queueGap64\<close> is by how much it is larger.
\<close>

fun leakExact :: "rat \<Rightarrow> number \<Rightarrow> rat" where
  "leakExact q (Finite l) = max 0 (q - l)"
| "leakExact q _ = 0"

fun theFinite :: "number \<Rightarrow> rat" where
  "theFinite (Finite q) = q"
| "theFinite _ = 0"

fun exactQueueSizes :: "limiter64 \<Rightarrow> (string \<times> number) list \<Rightarrow> bool" where
  "exactQueueSizes L [] = True"
| "exactQueueSizes L (c # cs) =
     ((case userLimits64 (fst (allowRequest64 L (fst c) (snd c))) (fst c) of
         None \<Rightarrow> False
       | Some r \<Rightarrow> (case queueSize64 r of Finite q \<Rightarrow> q < 2 ^ 53 | _ \<Rightarrow> False)) \<and>
      exactQueueSizes (fst (allowRequest64 L (fst c) (snd c))) cs)"

definition queueGap64 :: "limiter64 \<Rightarrow> limiter64 \<Rightarrow> string \<Rightarrow> rat" where
  "queueGap64 L1 L2 k =
     (case (userLimits64 L1 k, userLimits64 L2 k) of
        (Some r1, Some r2) \<Rightarrow> theFinite (queueSize64 r2) - theFinite (queueSize64 r1)
      | _ \<Rightarrow> 0)"

definition related64 :: "userLimit64 option \<Rightarrow> userLimit64 option \<Rightarrow> bool" where
  "related64 u1 u2 =
     (case (u1, u2) of
        (None, None) \<Rightarrow> True
      | (Some r1, Some r2) \<Rightarrow>
          lastLeakTime64 r1 = lastLeakTime64 r2 \<and>
          (\<exists>q1 q2. queueSize64 r1 = Finite q1 \<and> queueSize64 r2 = Finite q2 \<and>
                   q1 \<in> \<int> \<and> q2 \<in> \<int> \<and> q1 \<le> q2)
      | _ \<Rightarrow> False)"

definition dominated64 :: "limiter64 \<Rightarrow> limiter64 \<Rightarrow> bool" where
  "dominated64 L1 L2 \<longleftrightarrow>
     leakRatePerSecond64 L1 = leakRatePerSecond64 L2 \<and>
     le64 (bucketCapacity64 L1) (bucketCapacity64 L2) \<and>
     (\<forall>k. related64 (userLimits64 L1 k) (userLimits64 L2 k))"

section \<open>Basic facts about one call\<close>

lemma allowRequest_config:
  "bucketCapacity (fst (allowRequest L k t)) = bucketCapacity L"
  "leakRatePerSecond (fst (allowRequest L k t)) = leakRatePerSecond L"
  by (simp_all add: allowRequest_def Let_def split: option.split)

lemma allowRequest_other_key:
  "j \<noteq> k \<Longrightarrow> userLimits (fst (allowRequest L k t)) j = userLimits L j"
  by (simp add: allowRequest_def Let_def split: option.split)

lemma allowRequest_unseen:
  assumes "userLimits L k = None"
  shows "snd (allowRequest L k t)"
    and "userLimits (fst (allowRequest L k t)) k = Some \<lparr>lastLeakTime = t, queueSize = 1\<rparr>"
  using assms by (simp_all add: allowRequest_def)

lemma allowRequest_seen:
  fixes L :: limiter and k :: string and t :: rat and r :: userLimit
  assumes "userLimits L k = Some r"
  defines "leak \<equiv> requestsToLeak (leakRatePerSecond L) (lastLeakTime r) t"
  defines "q \<equiv> max 0 (queueSize r - leak)"
  shows "snd (allowRequest L k t) = (q < bucketCapacity L)"
    and "userLimits (fst (allowRequest L k t)) k =
           Some \<lparr>lastLeakTime = (if 0 < leak then t else lastLeakTime r),
                 queueSize = (if q < bucketCapacity L then q + 1 else q)\<rparr>"
  using assms(1) unfolding leak_def q_def
  by (simp_all add: allowRequest_def Let_def)

lemma allowRequest_key_present:
  "userLimits (fst (allowRequest L k t)) k \<noteq> None"
  by (simp add: allowRequest_def Let_def split: option.split)

text \<open>
  A call reads nothing but the configuration and the record of its own key.
\<close>

lemma allowRequest_same_key:
  assumes "bucketCapacity L1 = bucketCapacity L2"
    and "leakRatePerSecond L1 = leakRatePerSecond L2"
    and "userLimits L1 k = userLimits L2 k"
  shows "snd (allowRequest L1 k t) = snd (allowRequest L2 k t)"
    and "userLimits (fst (allowRequest L1 k t)) k = userLimits (fst (allowRequest L2 k t)) k"
proof -
  show "snd (allowRequest L1 k t) = snd (allowRequest L2 k t)"
  proof (cases "userLimits L2 k")
    case None
    then show ?thesis using assms by (simp add: allowRequest_unseen)
  next
    case (Some r)
    then show ?thesis using assms by (simp add: allowRequest_seen)
  qed
  show "userLimits (fst (allowRequest L1 k t)) k = userLimits (fst (allowRequest L2 k t)) k"
  proof (cases "userLimits L2 k")
    case None
    then show ?thesis using assms by (simp add: allowRequest_unseen)
  next
    case (Some r)
    then show ?thesis using assms by (simp add: allowRequest_seen)
  qed
qed

section \<open>Whole numbers and the sign of the leak\<close>

lemma Ints_less_add1:
  fixes x y :: rat
  assumes "x \<in> \<int>" "y \<in> \<int>" "x < y"
  shows "x + 1 \<le> y"
proof -
  from assms(1) obtain a where a: "x = of_int a" by (rule Ints_cases)
  from assms(2) obtain b where b: "y = of_int b" by (rule Ints_cases)
  from assms(3) have "a < b" unfolding a b by simp
  then have "a + 1 \<le> b" by simp
  then have "(of_int (a + 1) :: rat) \<le> of_int b" by (simp only: of_int_le_iff)
  then show ?thesis unfolding a b by simp
qed



section \<open>The queue size along a sequence of calls\<close>

text \<open>
  With a positive capacity, a leak rate that is not negative and timestamps that do not
  go back, the queue size is a whole number below \<open>capacity + 1\<close>. The invariant carries
  along that the stored \<open>lastLeakTime\<close> of a key is not after any coming call of the key.
\<close>

text \<open>
  \<open>nondecreasingPerKey\<close> says that, for every key, the timestamps of the calls of that
  key are sorted.
\<close>

lemma nondecreasingPerKey_sorted:
  "nondecreasingPerKey calls \<longleftrightarrow> (\<forall>k. sorted (map snd (callsFor k calls)))"
proof (induction calls)
  case Nil
  show ?case by (simp add: callsFor_def)
next
  case (Cons c cs)
  have "(\<forall>k. sorted (map snd (callsFor k (c # cs)))) \<longleftrightarrow>
        (\<forall>d \<in> set cs. fst d = fst c \<longrightarrow> snd c \<le> snd d) \<and> (\<forall>k. sorted (map snd (callsFor k cs)))"
    by (auto simp: callsFor_def)
  with Cons show ?case
    by (simp add: list_all_iff)
qed




section \<open>One key among the others\<close>

lemma results_isolated:
  assumes "bucketCapacity L1 = bucketCapacity L2"
    and "leakRatePerSecond L1 = leakRatePerSecond L2"
    and "userLimits L1 k = userLimits L2 k"
  shows "resultsFor k calls (results L1 calls) = results L2 (callsFor k calls)"
  using assms
proof (induction calls arbitrary: L1 L2)
  case Nil
  show ?case by (simp add: resultsFor_def callsFor_def)
next
  case (Cons c cs)
  let ?M1 = "fst (allowRequest L1 (fst c) (snd c))"
  show ?case
  proof (cases "fst c = k")
    case True
    let ?M2 = "fst (allowRequest L2 k (snd c))"
    have b: "snd (allowRequest L1 k (snd c)) = snd (allowRequest L2 k (snd c))"
      and u: "userLimits (fst (allowRequest L1 k (snd c))) k = userLimits ?M2 k"
      using Cons.prems by (rule allowRequest_same_key)+
    have "resultsFor k cs (results (fst (allowRequest L1 k (snd c))) cs) = results ?M2 (callsFor k cs)"
      using Cons.prems u by (intro Cons.IH) (simp_all add: allowRequest_config)
    with True b show ?thesis
      by (simp add: resultsFor_def callsFor_def)
  next
    case False
    have "resultsFor k cs (results ?M1 cs) = results L2 (callsFor k cs)"
      using Cons.prems False
      by (intro Cons.IH) (simp_all add: allowRequest_config allowRequest_other_key)
    with False show ?thesis
      by (simp add: resultsFor_def callsFor_def)
  qed
qed

section \<open>Counting admitted calls\<close>

lemma admitted_Cons: "admitted (b # bs) = of_bool b + admitted bs"
  by (simp add: admitted_def)

section \<open>Rounding to a double\<close>

text \<open>
  \<open>ilog2\<close> is the binary exponent.
\<close>

lemma ilog2_bounds:
  assumes "0 < a"
  shows "2 powi (ilog2 a) \<le> a" and "a < 2 powi (ilog2 a + 1)"
proof -
  have both: "2 powi (ilog2 a) \<le> a \<and> a < 2 powi (ilog2 a + 1)"
  proof (cases "1 \<le> a")
    case True
    define n where "n = \<lfloor>a\<rfloor>"
    have n: "1 \<le> n" "of_int n \<le> a" "a < of_int n + 1"
    proof -
      show "1 \<le> n" using True by (simp add: n_def le_floor_iff)
      show "of_int n \<le> a" unfolding n_def by linarith
      show "a < of_int n + 1" unfolding n_def by linarith
    qed
    from n(1) have "0 < n" by simp
    from bitlen_bounds [OF this]
    have lo: "2 ^ nat (bitlen n - 1) \<le> n" and hi: "n < 2 ^ nat (bitlen n)"
      by simp_all
    have pos: "1 \<le> bitlen n"
      using \<open>0 < n\<close> by (simp add: bitlen_alt_def)
    have e: "ilog2 a = bitlen n - 1"
      using True by (simp add: ilog2_def n_def)
    have "(2 :: rat) powi (bitlen n - 1) = 2 ^ nat (bitlen n - 1)"
      using pos by (simp add: power_int_def)
    also have "\<dots> = of_int (2 ^ nat (bitlen n - 1))"
      by simp
    also have "\<dots> \<le> of_int n"
      using lo by (simp only: of_int_le_iff)
    finally have 1: "2 powi (ilog2 a) \<le> a"
      using n(2) e by simp
    have "n + 1 \<le> 2 ^ nat (bitlen n)"
      using hi by simp
    then have "(of_int (n + 1) :: rat) \<le> of_int (2 ^ nat (bitlen n))"
      by (simp only: of_int_le_iff)
    also have "(of_int (2 ^ nat (bitlen n)) :: rat) = 2 ^ nat (bitlen n)"
      by simp
    finally have "of_int n + 1 \<le> (2 :: rat) ^ nat (bitlen n)"
      by simp
    with n(3) have "a < 2 ^ nat (bitlen n)"
      by linarith
    also have "(2 :: rat) ^ nat (bitlen n) = 2 powi (bitlen n)"
      using pos by (simp add: power_int_def)
    finally have 2: "a < 2 powi (ilog2 a + 1)"
      using e by simp
    from 1 2 show ?thesis ..
  next
    case False
    define b where "b = 1 / a"
    define n where "n = \<lceil>b\<rceil> - 1"
    have b: "1 < b" "a = 1 / b" "0 < b"
      using False assms by (simp_all add: b_def)
    have n: "1 \<le> n" "of_int n < b" "b \<le> of_int n + 1"
    proof -
      have "1 < \<lceil>b\<rceil>" using b(1) by (simp add: less_ceiling_iff)
      then show "1 \<le> n" by (simp add: n_def)
      show "of_int n < b" unfolding n_def by linarith
      show "b \<le> of_int n + 1" unfolding n_def by simp
    qed
    from n(1) have "0 < n" by simp
    from bitlen_bounds [OF this]
    have lo: "2 ^ nat (bitlen n - 1) \<le> n" and hi: "n < 2 ^ nat (bitlen n)"
      by simp_all
    have pos: "1 \<le> bitlen n"
      using \<open>0 < n\<close> by (simp add: bitlen_alt_def)
    have e: "ilog2 a = - bitlen n"
      using False by (simp add: ilog2_def n_def b_def)
    have "n + 1 \<le> 2 ^ nat (bitlen n)"
      using hi by simp
    then have "(of_int (n + 1) :: rat) \<le> of_int (2 ^ nat (bitlen n))"
      by (simp only: of_int_le_iff)
    also have "(of_int (2 ^ nat (bitlen n)) :: rat) = 2 ^ nat (bitlen n)"
      by simp
    finally have "of_int n + 1 \<le> (2 :: rat) ^ nat (bitlen n)"
      by simp
    with n(3) have up: "b \<le> 2 ^ nat (bitlen n)"
      by linarith
    have "(2 :: rat) ^ nat (bitlen n - 1) = of_int (2 ^ nat (bitlen n - 1))"
      by simp
    also have "\<dots> \<le> of_int n"
      using lo by (simp only: of_int_le_iff)
    also have "\<dots> < b"
      by (rule n(2))
    finally have down: "2 ^ nat (bitlen n - 1) < b" .
    have "(2 :: rat) powi (- bitlen n) = 1 / 2 ^ nat (bitlen n)"
      using pos by (simp add: power_int_def field_simps)
    also have "\<dots> \<le> 1 / b"
      using up b(3) by (simp add: field_simps)
    finally have 1: "2 powi (ilog2 a) \<le> a"
      using e b(2) by simp
    have "1 / b < 1 / 2 ^ nat (bitlen n - 1)"
      using down b(3) by (intro divide_strict_left_mono) simp_all
    then have "a < 1 / 2 ^ nat (bitlen n - 1)"
      by (simp only: b(2))
    also have "1 / (2 :: rat) ^ nat (bitlen n - 1) = 2 powi (- bitlen n + 1)"
    proof (cases "bitlen n = 1")
      case True
      then show ?thesis by simp
    next
      case False
      with pos have "- bitlen n + 1 < 0" by simp
      moreover have "nat (- (- bitlen n + 1)) = nat (bitlen n - 1)" by simp
      ultimately show ?thesis
        by (simp add: power_int_def field_simps)
    qed
    finally have 2: "a < 2 powi (ilog2 a + 1)"
      using e by simp
    from 1 2 show ?thesis ..
  qed
  from both show "2 powi (ilog2 a) \<le> a" and "a < 2 powi (ilog2 a + 1)"
    by simp_all
qed

lemma ilog2_unique:
  assumes "2 powi e \<le> a" and "a < 2 powi (e + 1)"
  shows "ilog2 a = e"
proof -
  have "0 < (2 :: rat) powi e" by simp
  with assms(1) have pos: "0 < a" by linarith
  note b = ilog2_bounds [OF pos]
  have "\<not> ilog2 a < e"
  proof
    assume "ilog2 a < e"
    then have "ilog2 a + 1 \<le> e" by simp
    then have "(2 :: rat) powi (ilog2 a + 1) \<le> 2 powi e"
      by (intro power_int_increasing) simp_all
    with b(2) assms(1) show False by simp
  qed
  moreover have "\<not> e < ilog2 a"
  proof
    assume "e < ilog2 a"
    then have "e + 1 \<le> ilog2 a" by simp
    then have "(2 :: rat) powi (e + 1) \<le> 2 powi (ilog2 a)"
      by (intro power_int_increasing) simp_all
    with b(1) assms(2) show False by simp
  qed
  ultimately show ?thesis by simp
qed

lemma ilog2_ge:
  assumes "2 powi k \<le> a"
  shows "k \<le> ilog2 a"
proof (rule ccontr)
  assume "\<not> k \<le> ilog2 a"
  then have "ilog2 a + 1 \<le> k" by simp
  then have "(2 :: rat) powi (ilog2 a + 1) \<le> 2 powi k"
    by (intro power_int_increasing) simp_all
  moreover have "0 < (2 :: rat) powi k" by simp
  with assms have "0 < a" by linarith
  then have "a < 2 powi (ilog2 a + 1)" by (rule ilog2_bounds)
  ultimately show False using assms by linarith
qed

lemma ilog2_le:
  assumes "0 < a" and "a \<le> 2 powi k"
  shows "ilog2 a \<le> k"
proof (rule ccontr)
  assume "\<not> ilog2 a \<le> k"
  then have "k < ilog2 a" by simp
  then have "(2 :: rat) powi k < 2 powi (ilog2 a)"
    by (intro power_int_strict_increasing) simp_all
  moreover have "2 powi (ilog2 a) \<le> a" using assms(1) by (rule ilog2_bounds)
  ultimately show False using assms(2) by linarith
qed

lemma roundHalfEven_of_int: "roundHalfEven (of_int n) = n"
  by (simp add: roundHalfEven_def)

lemma roundHalfEven_Ints: "x \<in> \<int> \<Longrightarrow> of_int (roundHalfEven x) = x"
  by (auto elim!: Ints_cases simp: roundHalfEven_of_int)

lemma roundHalfEven_ge:
  assumes "of_int n \<le> x"
  shows "n \<le> roundHalfEven x"
proof -
  from assms have "n \<le> \<lfloor>x\<rfloor>" by (simp add: le_floor_iff)
  moreover have "\<lfloor>x\<rfloor> \<le> roundHalfEven x"
    by (simp add: roundHalfEven_def Let_def)
  ultimately show ?thesis by simp
qed

lemma roundMagnitude_nonneg:
  assumes "0 \<le> a"
  shows "0 \<le> roundMagnitude a"
proof -
  define u :: rat where "u = 2 powi (max (ilog2 a) (- 1022) - 52)"
  have u: "0 < u" by (simp add: u_def)
  then have "of_int 0 \<le> a / u" using assms by simp
  then have "0 \<le> roundHalfEven (a / u)" by (rule roundHalfEven_ge)
  then have "0 \<le> of_int (roundHalfEven (a / u)) * u"
    using u by simp
  then show ?thesis
    by (simp add: roundMagnitude_def Let_def u_def)
qed

lemma roundMagnitude_ge:
  assumes "2 powi k \<le> a" and "- 1074 \<le> k"
  shows "2 powi k \<le> roundMagnitude a"
proof -
  define e where "e = max (ilog2 a) (- 1022)"
  define u :: rat where "u = 2 powi (e - 52)"
  define t where "t = (if - 1022 \<le> ilog2 a then ilog2 a else k)"
  have "0 < (2 :: rat) powi k" by simp
  with assms(1) have pos: "0 < a" by linarith
  have k: "k \<le> ilog2 a" using assms(1) by (rule ilog2_ge)
  have t: "k \<le> t" "2 powi t \<le> a" "0 \<le> t - (e - 52)"
    using k assms ilog2_bounds(1) [OF pos] by (auto simp: t_def e_def)
  have u: "0 < u" by (simp add: u_def)
  have "(2 :: rat) powi t = 2 powi (t - (e - 52)) * 2 powi (e - 52)"
    by (simp flip: power_int_add)
  also have "(2 :: rat) powi (t - (e - 52)) = of_int (2 ^ nat (t - (e - 52)))"
    using t(3) by (simp add: power_int_def)
  finally have eq: "2 powi t = of_int (2 ^ nat (t - (e - 52))) * u"
    by (simp add: u_def)
  have "of_int (2 ^ nat (t - (e - 52))) * u \<le> a"
    using t(2) eq by simp
  then have "of_int (2 ^ nat (t - (e - 52))) \<le> a / u"
    using u by (simp add: pos_le_divide_eq)
  then have "2 ^ nat (t - (e - 52)) \<le> roundHalfEven (a / u)"
    by (rule roundHalfEven_ge)
  then have "(of_int (2 ^ nat (t - (e - 52))) :: rat) \<le> of_int (roundHalfEven (a / u))"
    by (simp only: of_int_le_iff)
  then have "of_int (2 ^ nat (t - (e - 52))) * u \<le> of_int (roundHalfEven (a / u)) * u"
    using u by (simp only: mult_le_cancel_right_pos)
  then have "2 powi t \<le> roundMagnitude a"
    by (simp add: eq roundMagnitude_def Let_def u_def e_def)
  moreover have "(2 :: rat) powi k \<le> 2 powi t"
    using t(1) by (intro power_int_increasing) simp_all
  ultimately show ?thesis by linarith
qed

lemma roundMagnitude_exact:
  assumes "a \<in> \<int>" and "1 \<le> a" and "a \<le> 2 ^ 53"
  shows "roundMagnitude a = a"
proof -
  define e where "e = ilog2 a"
  define u :: rat where "u = 2 powi (e - 52)"
  have pos: "0 < a" using assms(2) by simp
  have "(2 :: rat) powi 0 \<le> a" using assms(2) by simp
  then have lo: "0 \<le> e" unfolding e_def by (rule ilog2_ge)
  have "a \<le> 2 powi 53" using assms(3) by simp
  with pos have hi: "e \<le> 53" unfolding e_def by (rule ilog2_le)
  have max: "max (ilog2 a) (- 1022) = e" using lo by (simp add: e_def)
  have u: "0 < u" by (simp add: u_def)
  have "a / u \<in> \<int>"
  proof (cases "e \<le> 52")
    case True
    then have "u = 1 / 2 ^ nat (52 - e)"
      by (cases "e = 52") (simp_all add: u_def power_int_def field_simps)
    then have "a / u = a * of_int (2 ^ nat (52 - e))" by simp
    then show ?thesis using assms(1) by simp
  next
    case False
    with hi have e: "e = 53" by simp
    have "2 powi e \<le> a" unfolding e_def using pos by (rule ilog2_bounds)
    with assms(3) have "a = 2 ^ 53" by (simp add: e)
    moreover have "u = 2" by (simp add: u_def e)
    ultimately have "a / u = of_int (2 ^ 52)" by simp
    then show ?thesis by (simp only: Ints_of_int)
  qed
  then have "of_int (roundHalfEven (a / u)) = a / u"
    by (rule roundHalfEven_Ints)
  then have "of_int (roundHalfEven (a / u)) * u = a"
    using u by simp
  then show ?thesis
    by (simp add: roundMagnitude_def Let_def max u_def)
qed

lemma roundHalfEven_le:
  assumes "x \<le> of_int n"
  shows "roundHalfEven x \<le> n"
proof -
  have "\<lfloor>x\<rfloor> \<le> n" using assms by (simp add: floor_le_iff)
  moreover have "\<lfloor>x\<rfloor> + 1 \<le> n" if "1 / 2 \<le> x - of_int \<lfloor>x\<rfloor>"
  proof -
    from that have "of_int \<lfloor>x\<rfloor> < x" by linarith
    with assms have "(of_int \<lfloor>x\<rfloor> :: rat) < of_int n" by linarith
    then have "\<lfloor>x\<rfloor> < n" by (simp only: of_int_less_iff)
    then show ?thesis by simp
  qed
  ultimately show ?thesis
    by (auto simp: roundHalfEven_def Let_def)
qed

lemma round64_whole:
  assumes "x \<in> \<int>" and "\<bar>x\<bar> \<le> 2 ^ 53"
  shows "round64 x = Finite x"
proof (cases "x = 0")
  case True
  then show ?thesis by (simp add: round64_def)
next
  case False
  have a: "\<bar>x\<bar> \<in> \<int>" using assms(1) by (rule Ints_abs)
  have "0 < \<bar>x\<bar>" using False by simp
  with a have "1 \<le> \<bar>x\<bar>"
    by (auto elim!: Ints_cases)
  with a assms(2) have m: "roundMagnitude \<bar>x\<bar> = \<bar>x\<bar>"
    by (intro roundMagnitude_exact)
  have "\<not> (2 :: rat) ^ 1024 \<le> 2 ^ 53" by simp
  with assms(2) have "\<not> 2 ^ 1024 \<le> \<bar>x\<bar>" by linarith
  with False m show ?thesis
    by (simp add: round64_def Let_def)
qed

lemma round64_up:
  assumes "2 ^ 52 \<le> \<bar>x\<bar> * 2 ^ k" and "\<bar>x\<bar> * 2 ^ k < 2 ^ 53" and "k \<le> 1074"
  shows "round64 x =
    Finite (if x < 0 then - (of_int (roundHalfEven (\<bar>x\<bar> * 2 ^ k)) / 2 ^ k)
            else of_int (roundHalfEven (\<bar>x\<bar> * 2 ^ k)) / 2 ^ k)"
proof -
  define a where "a = \<bar>x\<bar>"
  have p: "(2 :: rat) powi (- int k) = 1 / 2 ^ k"
    by (simp add: power_int_def field_simps)
  have "(2 :: rat) powi (52 - int k) = 2 powi 52 / 2 powi (int k)"
    by (rule power_int_diff) simp
  then have p52: "(2 :: rat) powi (52 - int k) = 2 ^ 52 / 2 ^ k"
    by simp
  have "(2 :: rat) powi (53 - int k) = 2 powi 53 / 2 powi (int k)"
    by (rule power_int_diff) simp
  then have p53: "(2 :: rat) powi (53 - int k) = 2 ^ 53 / 2 ^ k"
    by simp
  have "(2 :: rat) ^ 52 / 2 ^ k \<le> a"
    using assms(1) by (simp add: a_def pos_divide_le_eq)
  then have lo: "2 powi (52 - int k) \<le> a"
    by (simp only: p52)
  have "a < (2 :: rat) ^ 53 / 2 ^ k"
    using assms(2) by (simp add: a_def pos_less_divide_eq)
  then have "a < 2 powi (53 - int k)"
    by (simp only: p53)
  moreover have "52 - int k + 1 = 53 - int k" by simp
  ultimately have hi: "a < 2 powi (52 - int k + 1)"
    by (simp only:)
  have e: "ilog2 a = 52 - int k" using lo hi by (rule ilog2_unique)
  have max: "max (ilog2 a) (- 1022) = 52 - int k"
    using assms(3) by (simp add: e)
  have m: "roundMagnitude a = of_int (roundHalfEven (a * 2 ^ k)) / 2 ^ k"
    by (simp add: roundMagnitude_def Let_def max p)
  have "a * 2 ^ k \<le> of_int (2 ^ 53)" using assms(2) by (simp add: a_def)
  then have "roundHalfEven (a * 2 ^ k) \<le> 2 ^ 53" by (rule roundHalfEven_le)
  then have "(of_int (roundHalfEven (a * 2 ^ k)) :: rat) \<le> of_int (2 ^ 53)"
    by (simp only: of_int_le_iff)
  then have "of_int (roundHalfEven (a * 2 ^ k)) / 2 ^ k \<le> (2 ^ 53 :: rat) / 2 ^ k"
    by (simp add: divide_right_mono)
  also have "\<dots> \<le> 2 ^ 53"
    by (simp add: field_simps)
  also have "\<dots> < (2 :: rat) ^ 1024" by simp
  finally have fin: "\<not> 2 ^ 1024 \<le> roundMagnitude a"
    by (simp add: m)
  have "x \<noteq> 0" using assms(1) by auto
  then show ?thesis
    using fin m by (simp add: round64_def Let_def a_def)
qed

lemma round64_down:
  assumes "2 ^ 52 \<le> \<bar>x\<bar> / 2 ^ k" and "\<bar>x\<bar> / 2 ^ k < 2 ^ 53" and "k \<le> 970"
  shows "round64 x =
    Finite (if x < 0 then - (of_int (roundHalfEven (\<bar>x\<bar> / 2 ^ k)) * 2 ^ k)
            else of_int (roundHalfEven (\<bar>x\<bar> / 2 ^ k)) * 2 ^ k)"
proof -
  define a where "a = \<bar>x\<bar>"
  have "(2 :: rat) powi (52 + int k) = 2 powi 52 * 2 powi (int k)"
    by (rule power_int_add) simp
  then have p52: "(2 :: rat) powi (52 + int k) = 2 ^ 52 * 2 ^ k"
    by simp
  have "(2 :: rat) powi (53 + int k) = 2 powi 53 * 2 powi (int k)"
    by (rule power_int_add) simp
  then have p53: "(2 :: rat) powi (53 + int k) = 2 ^ 53 * 2 ^ k"
    by simp
  have "(2 :: rat) ^ 52 * 2 ^ k \<le> a"
    using assms(1) by (simp add: a_def pos_le_divide_eq)
  then have lo: "2 powi (52 + int k) \<le> a"
    by (simp only: p52)
  have "a < (2 :: rat) ^ 53 * 2 ^ k"
    using assms(2) by (simp add: a_def pos_divide_less_eq)
  then have "a < 2 powi (53 + int k)"
    by (simp only: p53)
  moreover have "52 + int k + 1 = 53 + int k" by simp
  ultimately have hi: "a < 2 powi (52 + int k + 1)"
    by (simp only:)
  have e: "ilog2 a = 52 + int k" using lo hi by (rule ilog2_unique)
  have max: "max (ilog2 a) (- 1022) = 52 + int k"
    by (simp add: e)
  have "(52 + int k) - 52 = int k" by simp
  then have m: "roundMagnitude a = of_int (roundHalfEven (a / 2 ^ k)) * 2 ^ k"
    by (simp add: roundMagnitude_def Let_def max)
  have "a / 2 ^ k \<le> of_int (2 ^ 53)" using assms(2) by (simp add: a_def)
  then have "roundHalfEven (a / 2 ^ k) \<le> 2 ^ 53" by (rule roundHalfEven_le)
  then have "(of_int (roundHalfEven (a / 2 ^ k)) :: rat) \<le> of_int (2 ^ 53)"
    by (simp only: of_int_le_iff)
  then have "of_int (roundHalfEven (a / 2 ^ k)) * 2 ^ k \<le> (2 ^ 53 :: rat) * 2 ^ k"
    by (simp add: mult_right_mono)
  also have "\<dots> = 2 ^ (53 + k)"
    by (simp add: power_add)
  also have "\<dots> < (2 :: rat) ^ 1024"
    using assms(3) by (intro power_strict_increasing) simp_all
  finally have fin: "\<not> 2 ^ 1024 \<le> roundMagnitude a"
    by (simp add: m)
  have "x \<noteq> 0" using assms(1) by auto
  then show ?thesis
    using fin m by (simp add: round64_def Let_def a_def)
qed

lemma roundHalfEven_quotient:
  assumes "0 < q"
  shows "roundHalfEven (of_int p / of_int q) =
    (if 2 * (p mod q) < q then p div q
     else if q < 2 * (p mod q) then p div q + 1
     else if even (p div q) then p div q else p div q + 1)"
proof -
  have f: "\<lfloor>(of_int p / of_int q :: rat)\<rfloor> = p div q"
    by (rule floor_divide_of_int_eq)
  have "(of_int p :: rat) = of_int (p div q * q + p mod q)"
    by simp
  also have "\<dots> = of_int (p div q) * of_int q + of_int (p mod q)"
    by (simp only: of_int_add of_int_mult)
  finally have "(of_int p / of_int q :: rat) = of_int (p div q) + of_int (p mod q) / of_int q"
    using assms by (simp add: field_simps)
  then have d: "(of_int p / of_int q :: rat) - of_int (p div q) = of_int (p mod q) / of_int q"
    by simp
  have lt: "(of_int (p mod q) / of_int q :: rat) < 1 / 2 \<longleftrightarrow> 2 * (p mod q) < q"
  proof -
    have "(of_int (p mod q) / of_int q :: rat) < 1 / 2 \<longleftrightarrow> (of_int (2 * (p mod q)) :: rat) < of_int q"
      using assms by (simp add: field_simps)
    then show ?thesis by (simp only: of_int_less_iff)
  qed
  have gt: "1 / 2 < (of_int (p mod q) / of_int q :: rat) \<longleftrightarrow> q < 2 * (p mod q)"
  proof -
    have "1 / 2 < (of_int (p mod q) / of_int q :: rat) \<longleftrightarrow> (of_int q :: rat) < of_int (2 * (p mod q))"
      using assms by (simp add: field_simps)
    then show ?thesis by (simp only: of_int_less_iff)
  qed
  show ?thesis
    unfolding roundHalfEven_def Let_def f d lt gt by simp
qed

lemma roundHalfEven_numeral_quotient:
  "roundHalfEven (numeral a / numeral b) =
    (if 2 * (numeral a mod numeral b) < (numeral b :: int) then numeral a div numeral b
     else if (numeral b :: int) < 2 * (numeral a mod numeral b) then numeral a div numeral b + 1
     else if even (numeral a div numeral b :: int) then numeral a div numeral b
     else numeral a div numeral b + 1)"
  using roundHalfEven_quotient [of "numeral b" "numeral a"] by simp

lemma roundHalfEven_numeral: "roundHalfEven (numeral a) = numeral a"
  using roundHalfEven_of_int [of "numeral a"] by simp

lemma floor_numeral_quotient:
  "\<lfloor>numeral a / numeral b :: rat\<rfloor> = numeral a div numeral b"
  using floor_divide_of_int_eq [of "numeral a" "numeral b", where ?'a = rat] by simp

lemma floor_neg_numeral_quotient:
  "\<lfloor>- (numeral a / numeral b) :: rat\<rfloor> = - numeral a div numeral b"
  using floor_divide_of_int_eq [of "- numeral a" "numeral b", where ?'a = rat] by simp

lemma floor_one_quotient:
  "\<lfloor>1 / numeral b :: rat\<rfloor> = 1 div numeral b"
  using floor_divide_of_int_eq [of 1 "numeral b", where ?'a = rat] by simp

lemma floor_neg_one_quotient:
  "\<lfloor>- (1 / numeral b) :: rat\<rfloor> = - 1 div numeral b"
  using floor_divide_of_int_eq [of "- 1" "numeral b", where ?'a = rat] by simp

lemma roundHalfEven_one_quotient:
  "roundHalfEven (1 / numeral b) =
    (if 2 * (1 mod numeral b) < (numeral b :: int) then 1 div numeral b
     else if (numeral b :: int) < 2 * (1 mod numeral b) then 1 div numeral b + 1
     else if even (1 div numeral b :: int) then 1 div numeral b
     else 1 div numeral b + 1)"
  using roundHalfEven_quotient [of "numeral b" 1] by simp

lemma roundHalfEven_0_1: "roundHalfEven 0 = 0" "roundHalfEven 1 = 1"
  using roundHalfEven_of_int [of 0] roundHalfEven_of_int [of 1] by simp_all

lemmas round64_eval =
  roundHalfEven_numeral_quotient roundHalfEven_numeral roundHalfEven_one_quotient
  roundHalfEven_0_1 floor_numeral_quotient floor_neg_numeral_quotient floor_one_quotient
  floor_neg_one_quotient

text \<open>
  A value too small for the smallest subnormal double rounds to zero.
\<close>

lemma round64_underflow:
  assumes "\<bar>x\<bar> * 2 ^ 1075 < 1"
  shows "round64 x = Finite 0"
proof (cases "x = 0")
  case True
  then show ?thesis by (simp add: round64_def)
next
  case False
  define a where "a = \<bar>x\<bar>"
  have pos: "0 < a" using False by (simp add: a_def)
  have small: "a * 2 ^ 1075 < 1" using assms by (simp add: a_def)
  have p: "(2 :: rat) powi (- 1075) = 1 / 2 ^ 1075"
    by (simp add: power_int_minus field_simps)
  have "a < 2 powi (- 1075)"
    unfolding p using small by (simp add: pos_less_divide_eq)
  then have "a \<le> 2 powi (- 1075)" by simp
  with pos have "ilog2 a \<le> - 1075" by (rule ilog2_le)
  then have e: "max (ilog2 a) (- 1022) = - 1022" by simp
  have u: "(2 :: rat) powi (- 1022 - 52) = 1 / 2 ^ 1074"
    by (simp add: power_int_minus field_simps)
  define y where "y = a / 2 powi (- 1022 - 52)"
  have y: "y = a * 2 ^ 1074"
    unfolding y_def u by (simp only: divide_divide_eq_right mult_1 div_by_1 mult.commute)
  have "a * 2 ^ 1075 = y * 2"
    unfolding y by (simp only: power_Suc2 [symmetric] mult.assoc) simp
  with small have half: "y < 1 / 2" by linarith
  have nonneg: "0 \<le> y" unfolding y using pos by (intro mult_nonneg_nonneg) simp_all
  have fl: "\<lfloor>y\<rfloor> = 0"
    using half nonneg by (simp add: floor_eq_iff)
  have "roundHalfEven y = 0"
    using half by (simp add: roundHalfEven_def Let_def fl)
  then have "roundMagnitude a = 0"
    unfolding roundMagnitude_def Let_def e y_def [symmetric] by (simp only: of_int_0 mult_zero_left)
  then have "roundMagnitude \<bar>x\<bar> = 0" by (simp only: a_def)
  then show ?thesis
    using False by (simp add: round64_def Let_def)
qed

text \<open>
  The facts that evaluate a run on concrete doubles: a whole number up to \<open>2 ^ 53\<close> is
  a double, and any other value is rounded by \<open>round64_up\<close> or \<open>round64_down\<close> at its
  exponent.
\<close>

lemmas run64 = allowRequest64_def requestsToLeak64_def Let_def round64_whole round64_eval

section \<open>The tests of the source, in binary64 arithmetic\<close>

text \<open>
  The first two tests of the source file, call by call, with the results they assert.
\<close>

lemma test_basic_functionality:
  "results64 \<lparr>bucketCapacity64 = Finite 5, leakRatePerSecond64 = Finite 2, userLimits64 = Map.empty\<rparr>
     [(''user1'', Finite 0), (''user1'', Finite 0), (''user1'', Finite 0), (''user1'', Finite 0),
      (''user1'', Finite 0), (''user1'', Finite 0),
      (''user1'', Finite 1000), (''user1'', Finite 1000), (''user1'', Finite 1000),
      (''user1'', Finite 2500), (''user1'', Finite 2500), (''user1'', Finite 2500),
      (''user1'', Finite 2500)]
   = [True, True, True, True, True, False, True, True, False, True, True, True, False]"
  by (simp add: run64 round64_up [where k = 52])

lemma test_continuous_leak:
  "results64 \<lparr>bucketCapacity64 = Finite 3, leakRatePerSecond64 = Finite 1, userLimits64 = Map.empty\<rparr>
     [(''user1'', Finite 0), (''user1'', Finite 0), (''user1'', Finite 0), (''user1'', Finite 500),
      (''user1'', Finite 1000), (''user1'', Finite 1000), (''user1'', Finite 2000),
      (''user1'', Finite 2000), (''user1'', Finite 3000), (''user1'', Finite 3000)]
   = [True, True, True, False, True, False, True, False, True, False]"
  by (simp add: run64 round64_up [where k = 53])

section \<open>Comparisons and signs of doubles\<close>

lemma less64_simps2 [simp]:
  "less64 PosInf c = False" "less64 x NaN = False" "less64 x NegInf = False"
  by (cases c; simp) (cases x; simp)+

lemma max64_simps2 [simp]:
  "max64 x NaN = NaN"
  by (cases x) simp_all

lemma le64_Finite_right:
  assumes "le64 x (Finite b)"
  obtains "x = NegInf" | y where "x = Finite y" "y \<le> b"
  using assms by (cases x) simp_all

lemma le64_Finite_left:
  assumes "le64 (Finite b) x"
  obtains "x = PosInf" | y where "x = Finite y" "b \<le> y"
  using assms by (cases x) simp_all

lemma round64_nonneg:
  assumes "0 \<le> x"
  shows "le64 (Finite 0) (round64 x)"
proof (cases "x = 0")
  case True
  then show ?thesis by (simp add: round64_def)
next
  case False
  with assms have "0 < x" by simp
  moreover have "0 \<le> roundMagnitude \<bar>x\<bar>"
    by (rule roundMagnitude_nonneg) simp
  ultimately show ?thesis
    by (simp add: round64_def Let_def)
qed

lemma round64_nonpos:
  assumes "x \<le> 0"
  shows "le64 (round64 x) (Finite 0)"
proof (cases "x = 0")
  case True
  then show ?thesis by (simp add: round64_def)
next
  case False
  with assms have "x < 0" by simp
  moreover have "0 \<le> roundMagnitude \<bar>x\<bar>"
    by (rule roundMagnitude_nonneg) simp
  ultimately show ?thesis
    by (simp add: round64_def Let_def)
qed

lemma round64_ge:
  assumes "2 powi k \<le> x" and "- 1074 \<le> k"
  shows "le64 (Finite (2 powi k)) (round64 x)"
proof -
  have "0 < (2 :: rat) powi k" by simp
  with assms(1) have pos: "0 < x" by linarith
  then have "2 powi k \<le> roundMagnitude \<bar>x\<bar>"
    using assms by (intro roundMagnitude_ge) simp_all
  with pos show ?thesis
    by (simp add: round64_def Let_def)
qed

lemma round64_le:
  assumes "x \<le> - (2 powi k)" and "- 1074 \<le> k"
  shows "le64 (round64 x) (Finite (- (2 powi k)))"
proof -
  have "0 < (2 :: rat) powi k" by simp
  with assms(1) have neg: "x < 0" by linarith
  then have "2 powi k \<le> roundMagnitude \<bar>x\<bar>"
    using assms by (intro roundMagnitude_ge) simp_all
  with neg show ?thesis
    by (simp add: round64_def Let_def)
qed

lemma floor64_cases:
  obtains "floor64 x = NaN" | "floor64 x = PosInf" | "floor64 x = NegInf"
  | n where "floor64 x = Finite (of_int n)"
  by (cases x) simp_all

lemma requestsToLeak64_cases:
  obtains "requestsToLeak64 rate l t = NaN" | "requestsToLeak64 rate l t = PosInf"
  | "requestsToLeak64 rate l t = NegInf"
  | n where "requestsToLeak64 rate l t = Finite (of_int n)"
  unfolding requestsToLeak64_def Let_def by (rule floor64_cases)

text \<open>The leak step on a whole queue size, where it is exact.\<close>

lemma leak_step_exact:
  assumes "q \<in> \<int>" and "q - of_int n \<le> 2 ^ 53"
  shows "max64 (Finite 0) (sub64 (Finite q) (Finite (of_int n))) = Finite (max 0 (q - of_int n))"
proof (cases "0 < q - of_int n")
  case True
  have "q - of_int n \<in> \<int>" using assms(1) by simp
  moreover have "\<bar>q - of_int n\<bar> \<le> 2 ^ 53" using True assms(2) by simp
  ultimately have "round64 (q - of_int n) = Finite (q - of_int n)"
    by (rule round64_whole)
  with True show ?thesis by (simp add: max_def)
next
  case False
  then have "q - of_int n \<le> 0" by simp
  then have "le64 (round64 (q - of_int n)) (Finite 0)" by (rule round64_nonpos)
  then show ?thesis
    using False by (cases rule: le64_Finite_right) (simp_all add: max_def)
qed

lemma leak_step_PosInf: "max64 (Finite 0) (sub64 (Finite q) PosInf) = Finite 0"
  by simp

lemma increment_exact:
  assumes "p \<in> \<int>" and "0 \<le> p" and "p < 2 ^ 53"
  shows "add64 (Finite p) (Finite 1) = Finite (p + 1)"
proof -
  have "p + 1 \<in> \<int>" using assms(1) by simp
  moreover have "p + 1 \<le> 2 ^ 53"
  proof -
    have "(2 :: rat) ^ 53 \<in> \<int>" by simp
    with assms(1,3) show ?thesis
      by (auto elim!: Ints_cases)
  qed
  ultimately have "round64 (p + 1) = Finite (p + 1)"
    using assms(2) by (intro round64_whole) simp_all
  then show ?thesis by simp
qed

lemma le64_simps2 [simp]:
  "le64 NegInf (Finite b)" "le64 x NaN = False" "le64 PosInf (Finite b) = False"
  by (cases x; simp)+

section \<open>Basic facts about one call, in binary64 arithmetic\<close>

lemma allowRequest64_config:
  "bucketCapacity64 (fst (allowRequest64 L k t)) = bucketCapacity64 L"
  "leakRatePerSecond64 (fst (allowRequest64 L k t)) = leakRatePerSecond64 L"
  by (simp_all add: allowRequest64_def Let_def split: option.split)

lemma allowRequest64_other_key:
  "j \<noteq> k \<Longrightarrow> userLimits64 (fst (allowRequest64 L k t)) j = userLimits64 L j"
  by (simp add: allowRequest64_def Let_def split: option.split)

lemma allowRequest64_unseen:
  assumes "userLimits64 L k = None"
  shows "snd (allowRequest64 L k t)"
    and "userLimits64 (fst (allowRequest64 L k t)) k =
           Some \<lparr>lastLeakTime64 = t, queueSize64 = Finite 1\<rparr>"
  using assms by (simp_all add: allowRequest64_def)

lemma allowRequest64_seen:
  fixes L :: limiter64 and k :: string and t :: number and r :: userLimit64
  assumes "userLimits64 L k = Some r"
  defines "leak \<equiv> requestsToLeak64 (leakRatePerSecond64 L) (lastLeakTime64 r) t"
  defines "q \<equiv> max64 (Finite 0) (sub64 (queueSize64 r) leak)"
  shows "snd (allowRequest64 L k t) = less64 q (bucketCapacity64 L)"
    and "userLimits64 (fst (allowRequest64 L k t)) k =
           Some \<lparr>lastLeakTime64 = (if less64 (Finite 0) leak then t else lastLeakTime64 r),
                 queueSize64 = (if less64 q (bucketCapacity64 L) then add64 q (Finite 1) else q)\<rparr>"
  using assms(1) unfolding leak_def q_def
  by (simp_all add: allowRequest64_def Let_def)

text \<open>
  If the value stored after a call is finite and below \<open>2 ^ 53\<close>, the leak step on a whole
  queue size was exact.
\<close>

lemma stored_exact:
  fixes q s :: rat and leak c :: number
  assumes q: "q \<in> \<int>"
    and stored: "(if less64 (max64 (Finite 0) (sub64 (Finite q) leak)) c
                  then add64 (max64 (Finite 0) (sub64 (Finite q) leak)) (Finite 1)
                  else max64 (Finite 0) (sub64 (Finite q) leak)) = Finite s"
    and s: "s < 2 ^ 53"
    and leak: "leak = NaN \<or> leak = PosInf \<or> leak = NegInf \<or> (\<exists>n. leak = Finite (of_int n))"
  shows "max64 (Finite 0) (sub64 (Finite q) leak) = Finite (leakExact q leak)"
    and "leakExact q leak < 2 ^ 53"
    and "leak = PosInf \<or> (\<exists>n. leak = Finite (of_int n) \<and> q - of_int n < 2 ^ 53)"
proof -
  have main: "max64 (Finite 0) (sub64 (Finite q) leak) = Finite (leakExact q leak) \<and>
      leakExact q leak < 2 ^ 53 \<and>
      (leak = PosInf \<or> (\<exists>n. leak = Finite (of_int n) \<and> q - of_int n < 2 ^ 53))"
    using leak
  proof (elim disjE exE)
    assume "leak = NaN"
    with stored show ?thesis by simp
  next
    assume "leak = PosInf"
    then show ?thesis by simp
  next
    assume "leak = NegInf"
    with stored show ?thesis by simp
  next
    fix n assume n: "leak = Finite (of_int n)"
    have small: "q - of_int n < 2 ^ 53"
    proof (rule ccontr)
      assume "\<not> q - of_int n < 2 ^ 53"
      then have "2 powi 53 \<le> q - of_int n" by simp
      then have "le64 (Finite (2 powi 53)) (round64 (q - of_int n))"
        by (rule round64_ge) simp
      then show False
      proof (cases rule: le64_Finite_left)
        case 1
        with stored n show False by simp
      next
        case (2 y)
        then have y: "2 ^ 53 \<le> y" by simp
        then have P: "max64 (Finite 0) (sub64 (Finite q) leak) = Finite y"
          using 2(1) n by simp
        show False
        proof (cases "less64 (Finite y) c")
          case True
          have "2 powi 53 \<le> y + 1" using y by simp
          then have "le64 (Finite (2 powi 53)) (round64 (y + 1))"
            by (rule round64_ge) simp
          moreover have "round64 (y + 1) = Finite s"
            using stored True by (simp add: P)
          ultimately show False using s by simp
        next
          case False
          then have "Finite y = Finite s" using stored by (simp add: P)
          with y s show False by simp
        qed
      qed
    qed
    then have "max64 (Finite 0) (sub64 (Finite q) leak) = Finite (max 0 (q - of_int n))"
      unfolding n using q by (intro leak_step_exact) simp_all
    with small n show ?thesis by auto
  qed
  from main show "max64 (Finite 0) (sub64 (Finite q) leak) = Finite (leakExact q leak)"
    and "leakExact q leak < 2 ^ 53"
    and "leak = PosInf \<or> (\<exists>n. leak = Finite (of_int n) \<and> q - of_int n < 2 ^ 53)"
    by simp_all
qed

lemma leakExact_facts:
  assumes "q1 \<in> \<int>" "q2 \<in> \<int>" "q1 \<le> q2"
    and "leak = PosInf \<or> (\<exists>n. leak = Finite (of_int n))"
  shows "leakExact q1 leak \<in> \<int>" "leakExact q2 leak \<in> \<int>"
    "0 \<le> leakExact q1 leak" "leakExact q1 leak \<le> leakExact q2 leak"
    "leakExact q2 leak - leakExact q1 leak \<le> q2 - q1"
  using assms by (auto simp: max_def)

lemma less64_le64_trans:
  assumes "less64 (Finite p1) c1" and "le64 c1 c2" and "\<not> less64 (Finite p2) c2"
  shows "p1 < p2"
  using assms by (cases c1; cases c2) simp_all

lemma stateAfter64_config:
  "bucketCapacity64 (stateAfter64 L calls) = bucketCapacity64 L"
  "leakRatePerSecond64 (stateAfter64 L calls) = leakRatePerSecond64 L"
  by (induction calls arbitrary: L) (simp_all add: allowRequest64_config)

text \<open>A stored queue size is never below zero: it is a finite number from 0 on, infinity or NaN.\<close>

lemma max64_zero_not_negative: "\<not> less64 (max64 (Finite 0) x) (Finite 0)"
  by (cases x) simp_all

lemma add64_one_not_negative:
  assumes "\<not> less64 x (Finite 0)"
  shows "\<not> less64 (add64 x (Finite 1)) (Finite 0)"
proof (cases x)
  case (Finite p)
  with assms have "0 \<le> p + 1" by simp
  then have "le64 (Finite 0) (round64 (p + 1))" by (rule round64_nonneg)
  then show ?thesis
    by (cases rule: le64_Finite_left) (simp_all add: Finite)
qed (use assms in simp_all)

lemma allowRequest64_not_negative:
  assumes "\<And>j s. userLimits64 L j = Some s \<Longrightarrow> \<not> less64 (queueSize64 s) (Finite 0)"
    and "userLimits64 (fst (allowRequest64 L k t)) j = Some s"
  shows "\<not> less64 (queueSize64 s) (Finite 0)"
proof (cases "j = k")
  case False
  with assms show ?thesis by (simp add: allowRequest64_other_key)
next
  case True
  show ?thesis
  proof (cases "userLimits64 L k")
    case None
    with assms(2) True show ?thesis by (auto simp: allowRequest64_unseen)
  next
    case (Some r)
    define P where
      "P = max64 (Finite 0) (sub64 (queueSize64 r)
             (requestsToLeak64 (leakRatePerSecond64 L) (lastLeakTime64 r) t))"
    have P: "\<not> less64 P (Finite 0)"
      unfolding P_def by (rule max64_zero_not_negative)
    then have "\<not> less64 (add64 P (Finite 1)) (Finite 0)"
      by (rule add64_one_not_negative)
    with P have "\<not> less64 (if less64 P (bucketCapacity64 L) then add64 P (Finite 1) else P) (Finite 0)"
      by simp
    moreover have "queueSize64 s = (if less64 P (bucketCapacity64 L) then add64 P (Finite 1) else P)"
      using assms(2) True allowRequest64_seen(2) [OF Some, of t] by (auto simp: P_def)
    ultimately show ?thesis by simp
  qed
qed

lemma stateAfter64_not_negative:
  assumes "\<And>j s. userLimits64 L j = Some s \<Longrightarrow> \<not> less64 (queueSize64 s) (Finite 0)"
    and "userLimits64 (stateAfter64 L calls) k = Some r"
  shows "\<not> less64 (queueSize64 r) (Finite 0)"
  using assms
proof (induction calls arbitrary: L)
  case Nil
  then show ?case by simp
next
  case (Cons c cs)
  show ?case
  proof (rule Cons.IH)
    show "userLimits64 (stateAfter64 (fst (allowRequest64 L (fst c) (snd c))) cs) k = Some r"
      using Cons.prems(2) by simp
  next
    fix j s
    assume "userLimits64 (fst (allowRequest64 L (fst c) (snd c))) j = Some s"
    with Cons.prems(1) show "\<not> less64 (queueSize64 s) (Finite 0)"
      by (rule allowRequest64_not_negative)
  qed
qed

section \<open>Two capacities, the same calls\<close>

lemma related64_cases:
  assumes "related64 u1 u2"
  obtains "u1 = None" "u2 = None"
  | r1 r2 q1 q2 where "u1 = Some r1" "u2 = Some r2" "lastLeakTime64 r1 = lastLeakTime64 r2"
      "queueSize64 r1 = Finite q1" "queueSize64 r2 = Finite q2" "q1 \<in> \<int>" "q2 \<in> \<int>" "q1 \<le> q2"
proof (cases u1)
  case None
  with assms have "u2 = None" by (cases u2) (simp_all add: related64_def)
  with None show ?thesis by (rule that(1))
next
  case (Some r1)
  with assms obtain r2 where r2: "u2 = Some r2" by (cases u2) (simp_all add: related64_def)
  from assms have "lastLeakTime64 r1 = lastLeakTime64 r2 \<and>
      (\<exists>q1 q2. queueSize64 r1 = Finite q1 \<and> queueSize64 r2 = Finite q2 \<and>
               q1 \<in> \<int> \<and> q2 \<in> \<int> \<and> q1 \<le> q2)"
    by (simp add: related64_def Some r2)
  then obtain q1 q2 where "lastLeakTime64 r1 = lastLeakTime64 r2"
    "queueSize64 r1 = Finite q1" "queueSize64 r2 = Finite q2" "q1 \<in> \<int>" "q2 \<in> \<int>" "q1 \<le> q2"
    by blast
  with Some r2 show ?thesis by (rule that(2))
qed

lemma queueGap64_nonneg:
  assumes "dominated64 L1 L2"
  shows "0 \<le> queueGap64 L1 L2 k"
proof -
  from assms have "related64 (userLimits64 L1 k) (userLimits64 L2 k)"
    by (simp add: dominated64_def)
  then show ?thesis
    by (cases rule: related64_cases) (simp_all add: queueGap64_def)
qed

lemma queueGap64_other_key:
  "j \<noteq> k \<Longrightarrow>
   queueGap64 (fst (allowRequest64 L1 k t)) (fst (allowRequest64 L2 k t)) j = queueGap64 L1 L2 j"
  by (simp add: queueGap64_def allowRequest64_other_key)

text \<open>The admission step on exact whole queue sizes \<open>p1 \<le> p2\<close>.\<close>

lemma admission_step:
  fixes p1 p2 q1 q2 n1 n2 :: rat
  assumes "p1 \<in> \<int>" "p2 \<in> \<int>" "p1 \<le> p2" "p2 - p1 \<le> q2 - q1"
    and b: "b1 \<and> \<not> b2 \<longrightarrow> p1 < p2"
    and n1: "n1 = (if b1 then p1 + 1 else p1)"
    and n2: "n2 = (if b2 then p2 + 1 else p2)"
  shows "n1 \<in> \<int> \<and> n2 \<in> \<int> \<and> n1 \<le> n2 \<and> of_bool b1 + (n2 - n1) \<le> of_bool b2 + (q2 - q1)"
proof -
  have "n1 \<in> \<int>" "n2 \<in> \<int>"
    unfolding n1 n2 using assms(1,2) by auto
  moreover have "n1 \<le> n2"
  proof (cases "b1 \<and> \<not> b2")
    case True
    with b have "p1 < p2" by simp
    with assms(1,2) have "p1 + 1 \<le> p2" by (intro Ints_less_add1)
    with True show ?thesis by (simp add: n1 n2)
  next
    case False
    then show ?thesis using assms(3) by (auto simp: n1 n2)
  qed
  moreover have "of_bool b1 + (n2 - n1) \<le> of_bool b2 + (q2 - q1)"
    using assms(4) by (auto simp: n1 n2)
  ultimately show ?thesis by simp
qed

lemma dominated64_step:
  assumes dom: "dominated64 L1 L2"
    and exact: "case userLimits64 (fst (allowRequest64 L2 k t)) k of
                  None \<Rightarrow> False
                | Some r \<Rightarrow> (case queueSize64 r of Finite q \<Rightarrow> q < 2 ^ 53 | _ \<Rightarrow> False)"
  shows "dominated64 (fst (allowRequest64 L1 k t)) (fst (allowRequest64 L2 k t))"
    and "of_bool (snd (allowRequest64 L1 k t)) +
           queueGap64 (fst (allowRequest64 L1 k t)) (fst (allowRequest64 L2 k t)) k
         \<le> of_bool (snd (allowRequest64 L2 k t)) + queueGap64 L1 L2 k"
proof -
  let ?M1 = "fst (allowRequest64 L1 k t)" and ?M2 = "fst (allowRequest64 L2 k t)"
  have rate: "leakRatePerSecond64 L1 = leakRatePerSecond64 L2"
    and cap: "le64 (bucketCapacity64 L1) (bucketCapacity64 L2)"
    and rel: "\<And>j. related64 (userLimits64 L1 j) (userLimits64 L2 j)"
    using dom unfolding dominated64_def by auto
  have here: "related64 (userLimits64 ?M1 k) (userLimits64 ?M2 k) \<and>
      of_bool (snd (allowRequest64 L1 k t)) + queueGap64 ?M1 ?M2 k
         \<le> of_bool (snd (allowRequest64 L2 k t)) + queueGap64 L1 L2 k"
  proof (cases "userLimits64 L1 k")
    case None
    with rel [of k] have "userLimits64 L2 k = None"
      by (cases rule: related64_cases) simp_all
    with None show ?thesis
      by (simp add: allowRequest64_unseen queueGap64_def related64_def)
  next
    case (Some r1)
    with rel [of k] obtain r2 q1 q2 where r2: "userLimits64 L2 k = Some r2"
      and same: "lastLeakTime64 r1 = lastLeakTime64 r2"
      and qs: "queueSize64 r1 = Finite q1" "queueSize64 r2 = Finite q2"
      and q: "q1 \<in> \<int>" "q2 \<in> \<int>" "q1 \<le> q2"
      by (cases rule: related64_cases) simp_all
    define leak where "leak = requestsToLeak64 (leakRatePerSecond64 L2) (lastLeakTime64 r2) t"
    define P1 where "P1 = max64 (Finite 0) (sub64 (Finite q1) leak)"
    define P2 where "P2 = max64 (Finite 0) (sub64 (Finite q2) leak)"
    define S1 where "S1 = (if less64 P1 (bucketCapacity64 L1) then add64 P1 (Finite 1) else P1)"
    define S2 where "S2 = (if less64 P2 (bucketCapacity64 L2) then add64 P2 (Finite 1) else P2)"
    define l where "l = (if less64 (Finite 0) leak then t else lastLeakTime64 r2)"
    have forms: "leak = NaN \<or> leak = PosInf \<or> leak = NegInf \<or> (\<exists>n. leak = Finite (of_int n))"
      unfolding leak_def by (rule requestsToLeak64_cases) auto
    have b1: "snd (allowRequest64 L1 k t) = less64 P1 (bucketCapacity64 L1)"
      unfolding P1_def leak_def
      using allowRequest64_seen(1) [OF Some, of t] by (simp only: rate same qs)
    have u1: "userLimits64 ?M1 k = Some \<lparr>lastLeakTime64 = l, queueSize64 = S1\<rparr>"
      unfolding S1_def P1_def l_def leak_def
      using allowRequest64_seen(2) [OF Some, of t] by (simp only: rate same qs)
    have b2: "snd (allowRequest64 L2 k t) = less64 P2 (bucketCapacity64 L2)"
      unfolding P2_def leak_def
      using allowRequest64_seen(1) [OF r2, of t] by (simp only: qs)
    have u2: "userLimits64 ?M2 k = Some \<lparr>lastLeakTime64 = l, queueSize64 = S2\<rparr>"
      unfolding S2_def P2_def l_def leak_def
      using allowRequest64_seen(2) [OF r2, of t] by (simp only: qs)
    from exact have "case S2 of Finite q \<Rightarrow> q < 2 ^ 53 | _ \<Rightarrow> False"
      by (simp add: u2)
    then obtain s where stored: "S2 = Finite s" and s: "s < 2 ^ 53"
      by (cases S2) simp_all
    define p1 where "p1 = leakExact q1 leak"
    define p2 where "p2 = leakExact q2 leak"
    note ex = stored_exact [OF q(2) stored [unfolded S2_def P2_def] s forms]
    have P2: "P2 = Finite p2" and p2: "p2 < 2 ^ 53"
      and leak: "leak = PosInf \<or> (\<exists>n. leak = Finite (of_int n) \<and> q2 - of_int n < 2 ^ 53)"
      using ex by (simp_all only: P2_def p2_def)
    have leak': "leak = PosInf \<or> (\<exists>n. leak = Finite (of_int n))"
      using leak by auto
    note facts = leakExact_facts [OF q leak', folded p1_def p2_def]
    have P1: "P1 = Finite p1"
      using leak
    proof (elim disjE exE conjE)
      assume "leak = PosInf"
      then show ?thesis by (simp add: P1_def p1_def)
    next
      fix n assume n: "leak = Finite (of_int n)" and "q2 - of_int n < 2 ^ 53"
      with q(3) have "q1 - of_int n \<le> 2 ^ 53" by simp
      with q(1) have "max64 (Finite 0) (sub64 (Finite q1) (Finite (of_int n))) = Finite (max 0 (q1 - of_int n))"
        by (rule leak_step_exact)
      then show ?thesis
        unfolding P1_def p1_def n by (simp only: leakExact.simps)
    qed
    have p1: "p1 < 2 ^ 53" using facts(4) p2 by simp
    have inc1: "add64 P1 (Finite 1) = Finite (p1 + 1)"
      unfolding P1 using facts(1,3) p1 by (rule increment_exact)
    have "0 \<le> p2" using facts(3,4) by simp
    with facts(2) have inc2: "add64 P2 (Finite 1) = Finite (p2 + 1)"
      unfolding P2 using p2 by (rule increment_exact)
    define n1 where "n1 = (if less64 P1 (bucketCapacity64 L1) then p1 + 1 else p1)"
    define n2 where "n2 = (if less64 P2 (bucketCapacity64 L2) then p2 + 1 else p2)"
    have cross: "less64 P1 (bucketCapacity64 L1) \<and> \<not> less64 P2 (bucketCapacity64 L2) \<longrightarrow> p1 < p2"
    proof
      assume "less64 P1 (bucketCapacity64 L1) \<and> \<not> less64 P2 (bucketCapacity64 L2)"
      then have "less64 (Finite p1) (bucketCapacity64 L1)" "\<not> less64 (Finite p2) (bucketCapacity64 L2)"
        by (simp_all add: P1 P2)
      from this(1) cap this(2) show "p1 < p2" by (rule less64_le64_trans)
    qed
    from admission_step [OF facts(1,2,4,5) cross n1_def n2_def]
    have step: "n1 \<in> \<int>" "n2 \<in> \<int>" "n1 \<le> n2"
      "of_bool (less64 P1 (bucketCapacity64 L1)) + (n2 - n1)
        \<le> of_bool (less64 P2 (bucketCapacity64 L2)) + (q2 - q1)"
      by simp_all
    have s1: "S1 = Finite n1"
    proof (cases "less64 P1 (bucketCapacity64 L1)")
      case True
      then show ?thesis by (simp add: S1_def n1_def inc1)
    next
      case False
      then show ?thesis by (simp add: S1_def n1_def P1)
    qed
    have s2: "S2 = Finite n2"
    proof (cases "less64 P2 (bucketCapacity64 L2)")
      case True
      then show ?thesis by (simp add: S2_def n2_def inc2)
    next
      case False
      then show ?thesis by (simp add: S2_def n2_def P2)
    qed
    have g: "queueGap64 L1 L2 k = q2 - q1"
      by (simp add: queueGap64_def Some r2 qs)
    have g': "queueGap64 ?M1 ?M2 k = n2 - n1"
      by (simp add: queueGap64_def u1 u2 s1 s2)
    have r': "related64 (userLimits64 ?M1 k) (userLimits64 ?M2 k)"
      using step(1-3) by (simp add: related64_def u1 u2 s1 s2)
    show ?thesis
      using step(4) r' by (simp only: b1 b2 g g' simp_thms)
  qed
  show "dominated64 ?M1 ?M2"
    unfolding dominated64_def
  proof (intro conjI allI)
    show "leakRatePerSecond64 ?M1 = leakRatePerSecond64 ?M2"
      "le64 (bucketCapacity64 ?M1) (bucketCapacity64 ?M2)"
      using rate cap by (simp_all add: allowRequest64_config)
    fix j
    show "related64 (userLimits64 ?M1 j) (userLimits64 ?M2 j)"
    proof (cases "j = k")
      case True
      then show ?thesis using here by simp
    next
      case False
      then show ?thesis using rel [of j] by (simp add: allowRequest64_other_key)
    qed
  qed
  show "of_bool (snd (allowRequest64 L1 k t)) + queueGap64 ?M1 ?M2 k
         \<le> of_bool (snd (allowRequest64 L2 k t)) + queueGap64 L1 L2 k"
    using here by simp
qed

lemma admitted_dominated64:
  assumes "dominated64 L1 L2" and "exactQueueSizes L2 calls"
  shows "(of_nat (admitted (results64 L1 calls)) :: rat)
         \<le> of_nat (admitted (results64 L2 calls)) + (\<Sum>k \<in> fst ` set calls. queueGap64 L1 L2 k)"
  using assms
proof (induction calls arbitrary: L1 L2)
  case Nil
  show ?case by (simp add: admitted_def)
next
  case (Cons c cs)
  let ?k = "fst c" and ?t = "snd c"
  let ?M1 = "fst (allowRequest64 L1 ?k ?t)" and ?M2 = "fst (allowRequest64 L2 ?k ?t)"
  let ?b1 = "snd (allowRequest64 L1 ?k ?t)" and ?b2 = "snd (allowRequest64 L2 ?k ?t)"
  let ?K = "fst ` set cs"
  let ?g = "queueGap64 L1 L2" and ?g' = "queueGap64 ?M1 ?M2"
  have exact: "case userLimits64 ?M2 ?k of
                  None \<Rightarrow> False
                | Some r \<Rightarrow> (case queueSize64 r of Finite q \<Rightarrow> q < 2 ^ 53 | _ \<Rightarrow> False)"
    and rest_exact: "exactQueueSizes ?M2 cs"
    using Cons.prems(2) by simp_all
  have dom: "dominated64 ?M1 ?M2"
    and step: "of_bool ?b1 + ?g' ?k \<le> of_bool ?b2 + ?g ?k"
    using Cons.prems(1) exact by (rule dominated64_step)+
  have fin: "finite ?K" by simp
  have IH: "(of_nat (admitted (results64 ?M1 cs)) :: rat)
         \<le> of_nat (admitted (results64 ?M2 cs)) + sum ?g' ?K"
    using dom rest_exact by (rule Cons.IH)
  have rest: "sum ?g' (?K - {?k}) = sum ?g (?K - {?k})"
    by (rule sum.cong) (simp_all add: queueGap64_other_key)
  have "sum ?g' ?K \<le> sum ?g' (insert ?k ?K)"
    using fin queueGap64_nonneg [OF dom, of ?k] by (cases "?k \<in> ?K") (simp_all add: insert_absorb)
  also have "\<dots> = ?g' ?k + sum ?g (?K - {?k})"
    using fin rest by (simp add: sum.insert_remove)
  finally have le: "sum ?g' ?K \<le> ?g' ?k + sum ?g (?K - {?k})" .
  have all: "sum ?g (fst ` set (c # cs)) = ?g ?k + sum ?g (?K - {?k})"
    using fin by (simp add: sum.insert_remove)
  have "(of_nat (admitted (results64 L1 (c # cs))) :: rat)
      = of_bool ?b1 + of_nat (admitted (results64 ?M1 cs))"
    by (simp add: admitted_Cons)
  also have "\<dots> \<le> of_bool ?b1 + (of_nat (admitted (results64 ?M2 cs)) + sum ?g' ?K)"
    using IH by simp
  also have "\<dots> \<le> of_bool ?b1 + (of_nat (admitted (results64 ?M2 cs)) + (?g' ?k + sum ?g (?K - {?k})))"
    using le by simp
  also have "\<dots> \<le> of_bool ?b2 + (of_nat (admitted (results64 ?M2 cs)) + (?g ?k + sum ?g (?K - {?k})))"
    using step by simp
  also have "\<dots> = of_nat (admitted (results64 L2 (c # cs))) + sum ?g (fst ` set (c # cs))"
    unfolding all by (simp add: admitted_Cons)
  finally show ?case .
qed

section \<open>A timestamp before the last leak\<close>

text \<open>The four stages of the leak count for a timestamp before \<open>lastLeakTime\<close>.\<close>

lemma regress_sub:
  "ts < leakTime \<Longrightarrow> le64 (sub64 (Finite ts) (Finite leakTime)) (Finite 0)"
  "1 \<le> leakTime - ts \<Longrightarrow> le64 (sub64 (Finite ts) (Finite leakTime)) (Finite (- (2 powi 0)))"
proof -
  show "le64 (sub64 (Finite ts) (Finite leakTime)) (Finite 0)" if "ts < leakTime"
    using that by (simp add: round64_nonpos)
  show "le64 (sub64 (Finite ts) (Finite leakTime)) (Finite (- (2 powi 0)))" if "1 \<le> leakTime - ts"
  proof -
    from that have "ts - leakTime \<le> - (2 powi 0)" by simp
    then have "le64 (round64 (ts - leakTime)) (Finite (- (2 powi 0)))"
      by (rule round64_le) simp
    then show ?thesis by simp
  qed
qed

lemma regress_div:
  "le64 x (Finite 0) \<Longrightarrow> le64 (divideBy1000 x) (Finite 0)"
  "le64 x (Finite (- (2 powi 0))) \<Longrightarrow> le64 (divideBy1000 x) (Finite (- (2 powi (- 10))))"
proof -
  show "le64 (divideBy1000 x) (Finite 0)" if "le64 x (Finite 0)"
    using that by (cases rule: le64_Finite_right) (simp_all add: round64_nonpos)
  show "le64 (divideBy1000 x) (Finite (- (2 powi (- 10))))" if "le64 x (Finite (- (2 powi 0)))"
    using that
  proof (cases rule: le64_Finite_right)
    case 1
    then show ?thesis by simp
  next
    case (2 y)
    then have "y \<le> - 1" by simp
    then have "y / 1000 \<le> - (1 / 1000)" by simp
    also have "- (1 / 1000) \<le> - ((2 :: rat) powi (- 10))" by simp
    finally have "le64 (round64 (y / 1000)) (Finite (- (2 powi (- 10))))"
      by (rule round64_le) simp
    with 2(1) show ?thesis by simp
  qed
qed

lemma regress_mul:
  "0 < rate \<Longrightarrow> le64 x (Finite 0) \<Longrightarrow> le64 (mul64 x (Finite rate)) (Finite 0)"
  "2 powi (- 1022) \<le> rate \<Longrightarrow> le64 x (Finite (- (2 powi (- 10)))) \<Longrightarrow>
     le64 (mul64 x (Finite rate)) (Finite (- (2 powi (- 1032))))"
proof -
  show "le64 (mul64 x (Finite rate)) (Finite 0)" if "0 < rate" "le64 x (Finite 0)"
    using that(2)
  proof (cases rule: le64_Finite_right)
    case 1
    with that(1) show ?thesis by simp
  next
    case (2 y)
    with that(1) have "y * rate \<le> 0" by (simp add: mult_nonpos_nonneg)
    then have "le64 (round64 (y * rate)) (Finite 0)" by (rule round64_nonpos)
    with 2(1) show ?thesis by simp
  qed
  show "le64 (mul64 x (Finite rate)) (Finite (- (2 powi (- 1032))))"
    if "2 powi (- 1022) \<le> rate" "le64 x (Finite (- (2 powi (- 10))))"
  proof -
    have "0 < (2 :: rat) powi (- 1022)" by simp
    with that(1) have rate: "0 < rate" by linarith
    from that(2) show ?thesis
    proof (cases rule: le64_Finite_right)
      case 1
      with rate show ?thesis by simp
    next
      case (2 y)
      have "(2 :: rat) powi (- 1032) = 2 powi (- 10) * 2 powi (- 1022)"
        using power_int_add [of "2 :: rat" "- 10" "- 1022"] by simp
      also have "\<dots> \<le> (- y) * rate"
        using 2(2) that(1) by (intro mult_mono) simp_all
      finally have "y * rate \<le> - (2 powi (- 1032))" by simp
      then have "le64 (round64 (y * rate)) (Finite (- (2 powi (- 1032))))"
        by (rule round64_le) simp
      with 2(1) show ?thesis by simp
    qed
  qed
qed

lemma regress_floor:
  "le64 x (Finite 0) \<Longrightarrow> floor64 x = NegInf \<or> (\<exists>n\<le>0. floor64 x = Finite (of_int n))"
  "le64 x (Finite b) \<Longrightarrow> b < 0 \<Longrightarrow> less64 (floor64 x) (Finite 0)"
proof -
  show "floor64 x = NegInf \<or> (\<exists>n\<le>0. floor64 x = Finite (of_int n))" if "le64 x (Finite 0)"
    using that
  proof (cases rule: le64_Finite_right)
    case 1
    then show ?thesis by simp
  next
    case (2 y)
    then have "\<lfloor>y\<rfloor> \<le> 0" by (simp add: floor_le_iff)
    with 2(1) show ?thesis by auto
  qed
  show "less64 (floor64 x) (Finite 0)" if "le64 x (Finite b)" "b < 0"
    using that(1)
  proof (cases rule: le64_Finite_right)
    case 1
    then show ?thesis by simp
  next
    case (2 y)
    with that(2) have "y < 0" by simp
    then have "\<lfloor>y\<rfloor> < 0" by (simp add: floor_less_iff)
    then have "(of_int \<lfloor>y\<rfloor> :: rat) < 0" by simp
    with 2(1) show ?thesis by simp
  qed
qed

lemma regression_leak_negative:
  assumes "2 powi (- 1022) \<le> rate" and "1 \<le> leakTime - ts"
  shows "less64 (requestsToLeak64 (Finite rate) (Finite leakTime) (Finite ts)) (Finite 0)"
  unfolding requestsToLeak64_def Let_def
proof (rule regress_floor(2))
  show "le64 (mul64 (divideBy1000 (sub64 (Finite ts) (Finite leakTime))) (Finite rate))
      (Finite (- (2 powi (- 1032))))"
    by (intro regress_mul(2) regress_div(2) regress_sub(2) assms)
  show "- ((2 :: rat) powi (- 1032)) < 0" by simp
qed

lemma regress_sub_general:
  assumes "less64 t l"
  shows "le64 (sub64 t l) (Finite 0)"
proof (cases t)
  case (Finite a)
  show ?thesis
  proof (cases l)
    case (Finite b)
    with \<open>t = Finite a\<close> assms have "a - b \<le> 0" by simp
    then have "le64 (round64 (a - b)) (Finite 0)" by (rule round64_nonpos)
    then show ?thesis by (simp add: Finite \<open>t = Finite a\<close>)
  qed (use assms \<open>t = Finite a\<close> in simp_all)
next
  case NegInf
  with assms show ?thesis by (cases l) simp_all
qed (use assms in simp_all)

lemma regression_leak_general:
  assumes "0 < rate" and "less64 t l"
  shows "requestsToLeak64 (Finite rate) l t = NegInf \<or>
         (\<exists>n\<le>0. requestsToLeak64 (Finite rate) l t = Finite (of_int n))"
  unfolding requestsToLeak64_def Let_def
  by (intro regress_floor(1) regress_mul(1) regress_div(1) regress_sub_general assms)

lemma grown_not_negative:
  assumes "\<not> less64 q (Finite 0)"
    and "leaked = NegInf \<or> (\<exists>n\<le>0. leaked = Finite (of_int n))"
  shows "max64 (Finite 0) (sub64 q leaked) = sub64 q leaked"
proof (cases q)
  case (Finite a)
  with assms(1) have a: "0 \<le> a" by simp
  from assms(2) show ?thesis
  proof (elim disjE exE conjE)
    assume "leaked = NegInf"
    then show ?thesis by (simp add: Finite)
  next
    fix n :: int assume n: "n \<le> 0" "leaked = Finite (of_int n)"
    then have "0 \<le> a - of_int n" using a by simp
    then have "le64 (Finite 0) (round64 (a - of_int n))" by (rule round64_nonneg)
    then show ?thesis
      by (cases rule: le64_Finite_left) (simp_all add: Finite n(2))
  qed
next
  case PosInf
  with assms(2) show ?thesis by auto
next
  case NegInf
  with assms(1) show ?thesis by simp
next
  case NaN
  then show ?thesis by simp
qed

section \<open>The claims\<close>

text \<open>
  C1, in the arithmetic the program runs on. For a key that already has a record \<open>r\<close>, a
  call computes \<open>elapsed = timestamp - lastLeakTime r\<close> and
  \<open>leaked = Math.floor ((elapsed / 1000) * leakRatePerSecond)\<close>, where the difference,
  the quotient and the product are each rounded to a double before the floor is taken.
  It brings the queue to \<open>q = Math.max (0, queueSize r - leaked)\<close>, moves \<open>lastLeakTime\<close>
  to the timestamp exactly when \<open>leaked > 0\<close> (it keeps the old value otherwise), returns
  true and stores \<open>q + 1\<close> when \<open>q < capacity\<close>, and returns false and stores \<open>q\<close>
  otherwise. The stored \<open>q + 1\<close> is a rounded sum; it is exactly one more than \<open>q\<close> for a
  whole \<open>q\<close> from 0 to below \<open>2 ^ 53\<close>. Only this key's record changes.
\<close>

theorem subsequent_request64:
  assumes "userLimits64 L userId = Some r"
  shows "let elapsed = sub64 timestamp (lastLeakTime64 r);
             leaked = floor64 (mul64 (divideBy1000 elapsed) (leakRatePerSecond64 L));
             q = max64 (Finite 0) (sub64 (queueSize64 r) leaked);
             l = (if less64 (Finite 0) leaked then timestamp else lastLeakTime64 r)
         in allowRequest64 L userId timestamp =
              (if less64 q (bucketCapacity64 L)
               then (L\<lparr>userLimits64 := (userLimits64 L)(userId \<mapsto>
                         \<lparr>lastLeakTime64 = l, queueSize64 = add64 q (Finite 1)\<rparr>)\<rparr>,
                     True)
               else (L\<lparr>userLimits64 := (userLimits64 L)(userId \<mapsto>
                         \<lparr>lastLeakTime64 = l, queueSize64 = q\<rparr>)\<rparr>,
                     False)) \<and>
            (\<forall>p. q = Finite p \<and> p \<in> \<int> \<and> 0 \<le> p \<and> p < 2 ^ 53 \<longrightarrow>
                 add64 q (Finite 1) = Finite (p + 1))"
proof -
  have "allowRequest64 L userId timestamp =
      (let elapsed = sub64 timestamp (lastLeakTime64 r);
           leaked = floor64 (mul64 (divideBy1000 elapsed) (leakRatePerSecond64 L));
           q = max64 (Finite 0) (sub64 (queueSize64 r) leaked);
           l = (if less64 (Finite 0) leaked then timestamp else lastLeakTime64 r)
       in if less64 q (bucketCapacity64 L)
          then (L\<lparr>userLimits64 := (userLimits64 L)(userId \<mapsto>
                    \<lparr>lastLeakTime64 = l, queueSize64 = add64 q (Finite 1)\<rparr>)\<rparr>,
                True)
          else (L\<lparr>userLimits64 := (userLimits64 L)(userId \<mapsto>
                    \<lparr>lastLeakTime64 = l, queueSize64 = q\<rparr>)\<rparr>,
                False))"
    using assms by (cases r) (simp add: allowRequest64_def requestsToLeak64_def Let_def)
  moreover have "add64 (Finite p) (Finite 1) = Finite (p + 1)"
    if "p \<in> \<int>" "0 \<le> p" "p < 2 ^ 53" for p
    using that by (rule increment_exact)
  ultimately show ?thesis
    by (simp add: Let_def)
qed

theorem subsequent_request64_witness:
  "userLimits64 \<lparr>bucketCapacity64 = Finite 29, leakRatePerSecond64 = Finite 100,
       userLimits64 = [''user1'' \<mapsto> \<lparr>lastLeakTime64 = Finite 0, queueSize64 = Finite 29\<rparr>]\<rparr> ''user1''
     = Some \<lparr>lastLeakTime64 = Finite 0, queueSize64 = Finite 29\<rparr> \<and>
   allowRequest64 \<lparr>bucketCapacity64 = Finite 29, leakRatePerSecond64 = Finite 100,
       userLimits64 = [''user1'' \<mapsto> \<lparr>lastLeakTime64 = Finite 0, queueSize64 = Finite 29\<rparr>]\<rparr>
       ''user1'' (Finite 290)
     = (\<lparr>bucketCapacity64 = Finite 29, leakRatePerSecond64 = Finite 100,
         userLimits64 = [''user1'' \<mapsto> \<lparr>lastLeakTime64 = Finite 290, queueSize64 = Finite 2\<rparr>]\<rparr>,
        True)"
  using subsequent_request64
    [of "\<lparr>bucketCapacity64 = Finite 29, leakRatePerSecond64 = Finite 100,
           userLimits64 = [''user1'' \<mapsto> \<lparr>lastLeakTime64 = Finite 0, queueSize64 = Finite 29\<rparr>]\<rparr>"
        "''user1''" "\<lparr>lastLeakTime64 = Finite 0, queueSize64 = Finite 29\<rparr>" "Finite 290"]
  by (simp add: Let_def round64_whole round64_eval round64_up [where k = 54] round64_up [where k = 48])

text \<open>
  C1 as stated, with the floor of the exact quotient and product, does not hold. With
  leak rate 100, \<open>lastLeakTime\<close> 0 and timestamp 290 the doubles give
  \<open>0.29 * 100 = 28.999999999999996\<close> and 28 requests leak, where the exact value is 29.
  With capacity 9, leak rate 25, the record \<open>(280, 1)\<close> and timestamp 0 the product is
  \<open>- 7.000000000000001\<close>, the leak count is \<open>- 8\<close>, and the call is rejected with the
  queue at 9, where the exact floor \<open>- 7\<close> would bring the queue to \<open>8 < 9\<close> and admit.
\<close>

theorem subsequent_request_counterexample:
  "requestsToLeak64 (Finite 100) (Finite 0) (Finite 290) = Finite 28 \<and>
   \<lfloor>((290 - 0) / 1000) * 100 :: rat\<rfloor> = 29 \<and>
   allowRequest64 \<lparr>bucketCapacity64 = Finite 9, leakRatePerSecond64 = Finite 25,
       userLimits64 = [''user1'' \<mapsto> \<lparr>lastLeakTime64 = Finite 280, queueSize64 = Finite 1\<rparr>]\<rparr>
       ''user1'' (Finite 0)
     = (\<lparr>bucketCapacity64 = Finite 9, leakRatePerSecond64 = Finite 25,
         userLimits64 = [''user1'' \<mapsto> \<lparr>lastLeakTime64 = Finite 280, queueSize64 = Finite 9\<rparr>]\<rparr>,
        False) \<and>
   \<lfloor>((0 - 280) / 1000) * 25 :: rat\<rfloor> = - 7 \<and>
   max 0 (1 - of_int (- 7)) < (9 :: rat)"
  by (simp add: run64 round64_up [where k = 54] round64_up [where k = 48] round64_up [where k = 50])




text \<open>
  C3, as the code has it. The constructor validates nothing: for every capacity and every
  leak rate, zero and negative ones included, it raises no error and returns a limiter
  with that configuration and an empty table.
\<close>

theorem construction_never_fails:
  "problem_createLeakyBucketRateLimiter capacity rate =
     Inr \<lparr>bucketCapacity = capacity, leakRatePerSecond = rate, userLimits = Map.empty\<rparr> \<and>
   \<not> isl (problem_createLeakyBucketRateLimiter capacity rate)"
  by (simp add: problem_createLeakyBucketRateLimiter_def)

text \<open>
  The claim as the specification words it asks for a configuration error when the capacity
  or the rate is not positive. At capacity 0 and rate \<open>-1\<close> the constructor returns a
  limiter.
\<close>

theorem construction_invalid_config_counterexample:
  "\<not> isl (problem_createLeakyBucketRateLimiter 0 (- 1)) \<and>
   problem_createLeakyBucketRateLimiter 0 (- 1) =
     Inr \<lparr>bucketCapacity = 0, leakRatePerSecond = - 1, userLimits = Map.empty\<rparr>"
  by (simp add: problem_createLeakyBucketRateLimiter_def)

text \<open>
  C4. The first call for a key that has no record is admitted whatever the configuration
  is, and it creates the record with \<open>queueSize = 1\<close> and \<open>lastLeakTime\<close> equal to the
  call's timestamp. Nothing else of the limiter changes.
\<close>

theorem first_request_admitted:
  assumes "userLimits L userId = None"
  shows "allowRequest L userId timestamp =
           (L\<lparr>userLimits := (userLimits L)(userId \<mapsto> \<lparr>lastLeakTime = timestamp, queueSize = 1\<rparr>)\<rparr>,
            True)"
  using assms by (simp add: allowRequest_def)

theorem first_request_admitted_witness:
  "userLimits \<lparr>bucketCapacity = 5, leakRatePerSecond = 2, userLimits = Map.empty\<rparr> ''user1'' = None \<and>
   allowRequest \<lparr>bucketCapacity = 5, leakRatePerSecond = 2, userLimits = Map.empty\<rparr> ''user1'' 0 =
     (\<lparr>bucketCapacity = 5, leakRatePerSecond = 2,
        userLimits = [''user1'' \<mapsto> \<lparr>lastLeakTime = 0, queueSize = 1\<rparr>]\<rparr>, True)"
  using first_request_admitted
    [of "\<lparr>bucketCapacity = 5, leakRatePerSecond = 2, userLimits = Map.empty\<rparr>" "''user1''" 0]
  by simp

text \<open>
  C5. The scenario of the first test of the source file: capacity 5, leak rate 2 per
  second, one key. Five calls at \<open>t = 0\<close> are admitted and the sixth is rejected; at
  \<open>t = 1000\<close> two calls are admitted and the third is rejected.
\<close>

theorem basic_functionality_scenario:
  "\<exists>L. problem_createLeakyBucketRateLimiter 5 2 = Inr L \<and>
     results L
       [(''user1'', 0), (''user1'', 0), (''user1'', 0), (''user1'', 0), (''user1'', 0),
        (''user1'', 0),
        (''user1'', 1000), (''user1'', 1000), (''user1'', 1000)]
     = [True, True, True, True, True, False, True, True, False]"
proof (intro exI conjI)
  show "problem_createLeakyBucketRateLimiter 5 2 =
      Inr \<lparr>bucketCapacity = 5, leakRatePerSecond = 2, userLimits = Map.empty\<rparr>"
    by (simp add: problem_createLeakyBucketRateLimiter_def)
  show "results \<lparr>bucketCapacity = 5, leakRatePerSecond = 2, userLimits = Map.empty\<rparr>
       [(''user1'', 0), (''user1'', 0), (''user1'', 0), (''user1'', 0), (''user1'', 0),
        (''user1'', 0),
        (''user1'', 1000), (''user1'', 1000), (''user1'', 1000)]
     = [True, True, True, True, True, False, True, True, False]"
    by (simp add: allowRequest_def requestsToLeak_def Let_def)
qed

text \<open>
  C6, as the code has it. Two limiters constructed with the same leak rate (any number)
  and capacities \<open>capacity1 \<le> capacity2\<close> serve the same sequence of calls (any keys, any
  timestamps). If every queue size that the limiter with the larger capacity stores
  during the run is finite and below \<open>2 ^ 53\<close>, the range in which \<^verbatim>\<open>queueSize++\<close> and
  \<^verbatim>\<open>queueSize - requestsToLeak\<close> are exact, then that limiter admits at least as many of
  the calls as the other.
\<close>

theorem admission_monotonic_while_exact:
  assumes "problem_createLeakyBucketRateLimiter64 capacity1 rate = Inr L1"
    and "problem_createLeakyBucketRateLimiter64 capacity2 rate = Inr L2"
    and "le64 capacity1 capacity2"
    and "exactQueueSizes L2 calls"
  shows "admitted (results64 L1 calls) \<le> admitted (results64 L2 calls)"
proof -
  have L: "L1 = \<lparr>bucketCapacity64 = capacity1, leakRatePerSecond64 = rate, userLimits64 = Map.empty\<rparr>"
    "L2 = \<lparr>bucketCapacity64 = capacity2, leakRatePerSecond64 = rate, userLimits64 = Map.empty\<rparr>"
    using assms(1,2) by (simp_all add: problem_createLeakyBucketRateLimiter64_def)
  have "dominated64 L1 L2"
    using assms(3) by (simp add: dominated64_def related64_def L)
  then have "(of_nat (admitted (results64 L1 calls)) :: rat)
         \<le> of_nat (admitted (results64 L2 calls)) + (\<Sum>k \<in> fst ` set calls. queueGap64 L1 L2 k)"
    using assms(4) by (rule admitted_dominated64)
  moreover have "queueGap64 L1 L2 k = 0" for k
    by (simp add: queueGap64_def L)
  ultimately have "(of_nat (admitted (results64 L1 calls)) :: rat) \<le> of_nat (admitted (results64 L2 calls))"
    by simp
  then show ?thesis
    by (simp only: of_nat_le_iff)
qed

theorem admission_monotonic_while_exact_witness:
  "problem_createLeakyBucketRateLimiter64 (Finite 1) (Finite 2) =
     Inr \<lparr>bucketCapacity64 = Finite 1, leakRatePerSecond64 = Finite 2, userLimits64 = Map.empty\<rparr> \<and>
   problem_createLeakyBucketRateLimiter64 (Finite 3) (Finite 2) =
     Inr \<lparr>bucketCapacity64 = Finite 3, leakRatePerSecond64 = Finite 2, userLimits64 = Map.empty\<rparr> \<and>
   le64 (Finite 1) (Finite 3) \<and>
   exactQueueSizes \<lparr>bucketCapacity64 = Finite 3, leakRatePerSecond64 = Finite 2, userLimits64 = Map.empty\<rparr>
      [(''user1'', Finite 0), (''user1'', Finite 0), (''user2'', Finite 0), (''user1'', Finite 0),
       (''user1'', Finite 500)] \<and>
   admitted (results64 \<lparr>bucketCapacity64 = Finite 1, leakRatePerSecond64 = Finite 2, userLimits64 = Map.empty\<rparr>
      [(''user1'', Finite 0), (''user1'', Finite 0), (''user2'', Finite 0), (''user1'', Finite 0),
       (''user1'', Finite 500)])
   \<le> admitted (results64 \<lparr>bucketCapacity64 = Finite 3, leakRatePerSecond64 = Finite 2, userLimits64 = Map.empty\<rparr>
      [(''user1'', Finite 0), (''user1'', Finite 0), (''user2'', Finite 0), (''user1'', Finite 0),
       (''user1'', Finite 500)]) \<and>
   results64 \<lparr>bucketCapacity64 = Finite 1, leakRatePerSecond64 = Finite 2, userLimits64 = Map.empty\<rparr>
      [(''user1'', Finite 0), (''user1'', Finite 0), (''user2'', Finite 0), (''user1'', Finite 0),
       (''user1'', Finite 500)]
     = [True, False, True, False, True] \<and>
   results64 \<lparr>bucketCapacity64 = Finite 3, leakRatePerSecond64 = Finite 2, userLimits64 = Map.empty\<rparr>
      [(''user1'', Finite 0), (''user1'', Finite 0), (''user2'', Finite 0), (''user1'', Finite 0),
       (''user1'', Finite 500)]
     = [True, True, True, True, True]"
  using admission_monotonic_while_exact
    [of "Finite 1" "Finite 2" "\<lparr>bucketCapacity64 = Finite 1, leakRatePerSecond64 = Finite 2, userLimits64 = Map.empty\<rparr>"
        "Finite 3" "\<lparr>bucketCapacity64 = Finite 3, leakRatePerSecond64 = Finite 2, userLimits64 = Map.empty\<rparr>"
        "[(''user1'', Finite 0), (''user1'', Finite 0), (''user2'', Finite 0), (''user1'', Finite 0),
          (''user1'', Finite 500)]"]
  by (simp add: problem_createLeakyBucketRateLimiter64_def run64 round64_up [where k = 53])

text \<open>
  C6 for every sequence of calls does not hold: from \<open>2 ^ 53\<close> on \<^verbatim>\<open>queueSize++\<close> rounds
  (\<open>2 ^ 53 + 1\<close> to \<open>2 ^ 53\<close>, \<open>2 ^ 53 + 3\<close> to \<open>2 ^ 53 + 4\<close>). With leak rate 2000,
  capacities \<open>2 ^ 53 + 2\<close> and \<open>2 ^ 53 + 4\<close>, and calls at \<open>2 ^ 52\<close>, \<open>2 ^ 52\<close>, 0 and six
  times \<open>2 ^ 52 + 1\<close>, the limiter with the smaller capacity admits 8 calls and the one
  with the larger capacity admits 4.
\<close>

theorem admission_monotonic_counterexample:
  "problem_createLeakyBucketRateLimiter64 (Finite 9007199254740994) (Finite 2000) =
     Inr \<lparr>bucketCapacity64 = Finite 9007199254740994, leakRatePerSecond64 = Finite 2000,
          userLimits64 = Map.empty\<rparr> \<and>
   problem_createLeakyBucketRateLimiter64 (Finite 9007199254740996) (Finite 2000) =
     Inr \<lparr>bucketCapacity64 = Finite 9007199254740996, leakRatePerSecond64 = Finite 2000,
          userLimits64 = Map.empty\<rparr> \<and>
   le64 (Finite 9007199254740994) (Finite 9007199254740996) \<and>
   results64 \<lparr>bucketCapacity64 = Finite 9007199254740994, leakRatePerSecond64 = Finite 2000,
      userLimits64 = Map.empty\<rparr>
     [(''user1'', Finite 4503599627370496), (''user1'', Finite 4503599627370496), (''user1'', Finite 0),
      (''user1'', Finite 4503599627370497), (''user1'', Finite 4503599627370497),
      (''user1'', Finite 4503599627370497), (''user1'', Finite 4503599627370497),
      (''user1'', Finite 4503599627370497), (''user1'', Finite 4503599627370497)]
   = [True, True, False, True, True, True, True, True, True] \<and>
   results64 \<lparr>bucketCapacity64 = Finite 9007199254740996, leakRatePerSecond64 = Finite 2000,
      userLimits64 = Map.empty\<rparr>
     [(''user1'', Finite 4503599627370496), (''user1'', Finite 4503599627370496), (''user1'', Finite 0),
      (''user1'', Finite 4503599627370497), (''user1'', Finite 4503599627370497),
      (''user1'', Finite 4503599627370497), (''user1'', Finite 4503599627370497),
      (''user1'', Finite 4503599627370497), (''user1'', Finite 4503599627370497)]
   = [True, True, True, True, False, False, False, False, False] \<and>
   \<not> admitted [True, True, False, True, True, True, True, True, True]
     \<le> admitted [True, True, True, True, False, False, False, False, False]"
  by (simp add: problem_createLeakyBucketRateLimiter64_def run64 admitted_def
      round64_up [where k = 10] round64_up [where k = 62] round64_up [where k = 51]
      round64_down [where k = 1])

text \<open>
  C7. Per-key isolation: in any sequence of calls on a limiter that the constructor
  returned (two keys interleaved, or more), the results of the calls of a key \<open>k\<close> are
  the results of running the calls of \<open>k\<close> alone, in the same order with the same
  timestamps, on a limiter constructed with the same configuration.
\<close>

theorem per_key_isolation:
  assumes "problem_createLeakyBucketRateLimiter capacity rate = Inr L"
  shows "resultsFor k calls (results L calls) = results L (callsFor k calls)"
  by (rule results_isolated) simp_all

theorem per_key_isolation_witness:
  "problem_createLeakyBucketRateLimiter 2 1 =
     Inr \<lparr>bucketCapacity = 2, leakRatePerSecond = 1, userLimits = Map.empty\<rparr> \<and>
   resultsFor ''user1''
     [(''user1'', 0), (''user2'', 0), (''user1'', 0), (''user2'', 0), (''user1'', 0), (''user2'', 1000)]
     (results \<lparr>bucketCapacity = 2, leakRatePerSecond = 1, userLimits = Map.empty\<rparr>
        [(''user1'', 0), (''user2'', 0), (''user1'', 0), (''user2'', 0), (''user1'', 0), (''user2'', 1000)])
     = results \<lparr>bucketCapacity = 2, leakRatePerSecond = 1, userLimits = Map.empty\<rparr>
        [(''user1'', 0), (''user1'', 0), (''user1'', 0)] \<and>
   results \<lparr>bucketCapacity = 2, leakRatePerSecond = 1, userLimits = Map.empty\<rparr>
        [(''user1'', 0), (''user1'', 0), (''user1'', 0)] = [True, True, False]"
  using per_key_isolation [of 2 1 "\<lparr>bucketCapacity = 2, leakRatePerSecond = 1, userLimits = Map.empty\<rparr>"
      "''user1''"
      "[(''user1'', 0), (''user2'', 0), (''user1'', 0), (''user2'', 0), (''user1'', 0), (''user2'', 1000)]"]
  by (simp add: problem_createLeakyBucketRateLimiter_def callsFor_def allowRequest_def
      requestsToLeak_def Let_def)

text \<open>
  C8. A call never fails and always returns a boolean: \<open>allowRequest\<close> is a total function
  of the limiter, the key and the timestamp (every operation of its body, the map lookup
  and store, the arithmetic, \<open>Math.floor\<close>, \<open>Math.max\<close> and the comparisons, is total on
  numbers and none raises). Its only effect is on the record of the key it was called
  with: that key has a record afterwards, the configuration is as before, and the record
  of every other key is as before. No bound on the timestamp is needed.
\<close>

theorem allowRequest_total_local:
  "\<exists>L' b. allowRequest L userId timestamp = (L', b) \<and>
      bucketCapacity L' = bucketCapacity L \<and>
      leakRatePerSecond L' = leakRatePerSecond L \<and>
      userLimits L' userId \<noteq> None \<and>
      (\<forall>k. k \<noteq> userId \<longrightarrow> userLimits L' k = userLimits L k)"
proof -
  obtain L' b where eq: "allowRequest L userId timestamp = (L', b)"
    by (cases "allowRequest L userId timestamp")
  then have L': "L' = fst (allowRequest L userId timestamp)"
    by simp
  have "bucketCapacity L' = bucketCapacity L" "leakRatePerSecond L' = leakRatePerSecond L"
    unfolding L' by (rule allowRequest_config)+
  moreover have "userLimits L' userId \<noteq> None"
    unfolding L' by (rule allowRequest_key_present)
  moreover have "\<forall>k. k \<noteq> userId \<longrightarrow> userLimits L' k = userLimits L k"
    unfolding L' by (simp add: allowRequest_other_key)
  ultimately show ?thesis
    using eq by blast
qed

theorem allowRequest_total_local_witness:
  "''user2'' \<noteq> ''user1'' \<and>
   userLimits (fst (allowRequest
       \<lparr>bucketCapacity = 2, leakRatePerSecond = 1,
        userLimits = [''user2'' \<mapsto> \<lparr>lastLeakTime = 0, queueSize = 2\<rparr>]\<rparr> ''user1'' 1000)) ''user2''
     = Some \<lparr>lastLeakTime = 0, queueSize = 2\<rparr>"
  using allowRequest_total_local
    [of "\<lparr>bucketCapacity = 2, leakRatePerSecond = 1,
           userLimits = [''user2'' \<mapsto> \<lparr>lastLeakTime = 0, queueSize = 2\<rparr>]\<rparr>" "''user1''" 1000]
  by auto

text \<open>
  C9, as the code has it. A limiter constructed with a finite positive leak rate has
  served some calls and holds the record \<open>r\<close> for a key; the next call of that key has
  a timestamp strictly before \<open>lastLeakTime r\<close>. Then the leak count \<open>leaked\<close>, computed
  in doubles, is never positive: it is a whole number that is not positive, or minus
  infinity; it is negative when the timestamp is at least one millisecond early and the
  rate is at least \<open>2 ^ (- 1022)\<close>. The leak step does not lower the queue size: it stores
  \<open>grown = queueSize r - leaked\<close>, which is \<open>queueSize r + \<bar>leaked\<bar>\<close> exactly for a whole
  queue size while the sum is at most \<open>2 ^ 53\<close>. \<open>lastLeakTime\<close> stays as it was, and the
  call is admitted (one more slot is taken) exactly when \<open>grown\<close> is below the capacity.
  The stored queue size can exceed the capacity in this way: there are a positive
  configuration, calls and a regressing call, all with timestamps that are not negative,
  after which the stored queue size is above the capacity.
\<close>

theorem timestamp_regression64:
  assumes "problem_createLeakyBucketRateLimiter64 capacity (Finite rate) = Inr L0"
    and "0 < rate"
    and "userLimits64 (stateAfter64 L0 calls) userId = Some r"
    and "less64 timestamp (lastLeakTime64 r)"
  shows "(let leaked = requestsToLeak64 (Finite rate) (lastLeakTime64 r) timestamp;
              grown = sub64 (queueSize64 r) leaked;
              (L', admit) = allowRequest64 (stateAfter64 L0 calls) userId timestamp
          in (leaked = NegInf \<or> (\<exists>n\<le>0. leaked = Finite (of_int n))) \<and>
             (\<forall>ts leakTime. timestamp = Finite ts \<and> lastLeakTime64 r = Finite leakTime \<and>
                  1 \<le> leakTime - ts \<and> 2 powi (- 1022) \<le> rate \<longrightarrow> less64 leaked (Finite 0)) \<and>
             (\<forall>q n. queueSize64 r = Finite q \<and> leaked = Finite (of_int n) \<and> q \<in> \<int> \<and>
                  q + of_int \<bar>n\<bar> \<le> 2 ^ 53 \<longrightarrow> grown = Finite (q + of_int \<bar>n\<bar>)) \<and>
             admit = less64 grown capacity \<and>
             userLimits64 L' userId =
               Some \<lparr>lastLeakTime64 = lastLeakTime64 r,
                     queueSize64 = (if admit then add64 grown (Finite 1) else grown)\<rparr>) \<and>
         (\<exists>c p M u k t s s'.
             problem_createLeakyBucketRateLimiter64 c p = Inr M \<and>
             less64 (Finite 0) c \<and> less64 (Finite 0) p \<and>
             list_all (\<lambda>d. le64 (Finite 0) (snd d)) u \<and> le64 (Finite 0) t \<and>
             userLimits64 (stateAfter64 M u) k = Some s \<and> less64 t (lastLeakTime64 s) \<and>
             userLimits64 (fst (allowRequest64 (stateAfter64 M u) k t)) k = Some s' \<and>
             less64 c (queueSize64 s'))"
proof
  let ?L = "stateAfter64 L0 calls"
  define leaked where "leaked = requestsToLeak64 (Finite rate) (lastLeakTime64 r) timestamp"
  define grown where "grown = sub64 (queueSize64 r) leaked"
  have L0: "L0 = \<lparr>bucketCapacity64 = capacity, leakRatePerSecond64 = Finite rate, userLimits64 = Map.empty\<rparr>"
    using assms(1) by (simp add: problem_createLeakyBucketRateLimiter64_def)
  have conf: "bucketCapacity64 ?L = capacity" "leakRatePerSecond64 ?L = Finite rate"
    by (simp_all add: stateAfter64_config L0)
  have q: "\<not> less64 (queueSize64 r) (Finite 0)"
    using _ assms(3) by (rule stateAfter64_not_negative) (simp add: L0)
  have forms: "leaked = NegInf \<or> (\<exists>n\<le>0. leaked = Finite (of_int n))"
    unfolding leaked_def using assms(2,4) by (rule regression_leak_general)
  have strict: "less64 leaked (Finite 0)"
    if "timestamp = Finite ts" "lastLeakTime64 r = Finite leakTime"
      "1 \<le> leakTime - ts" "2 powi (- 1022) \<le> rate" for ts leakTime
    unfolding leaked_def that(1,2) using that(4,3) by (rule regression_leak_negative)
  have notpos: "\<not> less64 (Finite 0) leaked"
    using forms by auto
  have post: "max64 (Finite 0) (sub64 (queueSize64 r) leaked) = grown"
    unfolding grown_def using q forms by (rule grown_not_negative)
  have exact: "grown = Finite (q + of_int \<bar>n\<bar>)"
    if "queueSize64 r = Finite q" "leaked = Finite (of_int n)" "q \<in> \<int>" "q + of_int \<bar>n\<bar> \<le> 2 ^ 53"
    for q n
  proof -
    from forms that(2) have "n \<le> 0" by auto
    then have eq: "q - of_int n = q + of_int \<bar>n\<bar>" by simp
    from q that(1) have "0 \<le> q" by simp
    have "q + of_int \<bar>n\<bar> \<in> \<int>" using that(3) by simp
    moreover have "\<bar>q + of_int \<bar>n\<bar>\<bar> \<le> 2 ^ 53" using that(4) \<open>0 \<le> q\<close> by simp
    ultimately have "round64 (q + of_int \<bar>n\<bar>) = Finite (q + of_int \<bar>n\<bar>)"
      by (rule round64_whole)
    then show ?thesis
      by (simp add: grown_def that(1,2) eq)
  qed
  have leak: "requestsToLeak64 (leakRatePerSecond64 ?L) (lastLeakTime64 r) timestamp = leaked"
    by (simp add: leaked_def conf)
  have b: "snd (allowRequest64 ?L userId timestamp) = less64 grown capacity"
    by (rule allowRequest64_seen(1) [OF assms(3), of timestamp, unfolded leak, unfolded post,
          unfolded conf])
  have u: "userLimits64 (fst (allowRequest64 ?L userId timestamp)) userId =
      Some \<lparr>lastLeakTime64 = lastLeakTime64 r,
            queueSize64 = (if less64 grown capacity then add64 grown (Finite 1) else grown)\<rparr>"
    by (rule allowRequest64_seen(2) [OF assms(3), of timestamp, unfolded leak, unfolded post,
          unfolded if_not_P [OF notpos], unfolded conf])
  show "let leaked = requestsToLeak64 (Finite rate) (lastLeakTime64 r) timestamp;
              grown = sub64 (queueSize64 r) leaked;
              (L', admit) = allowRequest64 (stateAfter64 L0 calls) userId timestamp
          in (leaked = NegInf \<or> (\<exists>n\<le>0. leaked = Finite (of_int n))) \<and>
             (\<forall>ts leakTime. timestamp = Finite ts \<and> lastLeakTime64 r = Finite leakTime \<and>
                  1 \<le> leakTime - ts \<and> 2 powi (- 1022) \<le> rate \<longrightarrow> less64 leaked (Finite 0)) \<and>
             (\<forall>q n. queueSize64 r = Finite q \<and> leaked = Finite (of_int n) \<and> q \<in> \<int> \<and>
                  q + of_int \<bar>n\<bar> \<le> 2 ^ 53 \<longrightarrow> grown = Finite (q + of_int \<bar>n\<bar>)) \<and>
             admit = less64 grown capacity \<and>
             userLimits64 L' userId =
               Some \<lparr>lastLeakTime64 = lastLeakTime64 r,
                     queueSize64 = (if admit then add64 grown (Finite 1) else grown)\<rparr>"
    unfolding leaked_def [symmetric] Let_def grown_def [symmetric] split_beta
    using forms strict exact b u by (simp only: simp_thms) blast
next
  show "\<exists>c p M u k t s s'.
             problem_createLeakyBucketRateLimiter64 c p = Inr M \<and>
             less64 (Finite 0) c \<and> less64 (Finite 0) p \<and>
             list_all (\<lambda>d. le64 (Finite 0) (snd d)) u \<and> le64 (Finite 0) t \<and>
             userLimits64 (stateAfter64 M u) k = Some s \<and> less64 t (lastLeakTime64 s) \<and>
             userLimits64 (fst (allowRequest64 (stateAfter64 M u) k t)) k = Some s' \<and>
             less64 c (queueSize64 s')"
    apply (rule exI [of _ "Finite 5"])
    apply (rule exI [of _ "Finite 2"])
    apply (rule exI [of _ "\<lparr>bucketCapacity64 = Finite 5, leakRatePerSecond64 = Finite 2, userLimits64 = Map.empty\<rparr>"])
    apply (rule exI [of _ "[(''user1'', Finite 10000)]"])
    apply (rule exI [of _ "''user1''"])
    apply (rule exI [of _ "Finite 0"])
    apply (rule exI [of _ "\<lparr>lastLeakTime64 = Finite 10000, queueSize64 = Finite 1\<rparr>"])
    apply (rule exI [of _ "\<lparr>lastLeakTime64 = Finite 10000, queueSize64 = Finite 21\<rparr>"])
    apply (simp add: problem_createLeakyBucketRateLimiter64_def run64)
    done
qed

theorem timestamp_regression64_witness:
  "problem_createLeakyBucketRateLimiter64 (Finite 9) (Finite 25) =
     Inr \<lparr>bucketCapacity64 = Finite 9, leakRatePerSecond64 = Finite 25, userLimits64 = Map.empty\<rparr> \<and>
   (0 :: rat) < 25 \<and>
   userLimits64 (stateAfter64
       \<lparr>bucketCapacity64 = Finite 9, leakRatePerSecond64 = Finite 25, userLimits64 = Map.empty\<rparr>
       [(''user1'', Finite 280)]) ''user1''
     = Some \<lparr>lastLeakTime64 = Finite 280, queueSize64 = Finite 1\<rparr> \<and>
   less64 (Finite 0) (lastLeakTime64 \<lparr>lastLeakTime64 = Finite 280, queueSize64 = Finite 1\<rparr>) \<and>
   requestsToLeak64 (Finite 25) (Finite 280) (Finite 0) = Finite (- 8) \<and>
   \<not> snd (allowRequest64 (stateAfter64
       \<lparr>bucketCapacity64 = Finite 9, leakRatePerSecond64 = Finite 25, userLimits64 = Map.empty\<rparr>
       [(''user1'', Finite 280)]) ''user1'' (Finite 0)) \<and>
   userLimits64 (fst (allowRequest64 (stateAfter64
       \<lparr>bucketCapacity64 = Finite 9, leakRatePerSecond64 = Finite 25, userLimits64 = Map.empty\<rparr>
       [(''user1'', Finite 280)]) ''user1'' (Finite 0))) ''user1''
     = Some \<lparr>lastLeakTime64 = Finite 280, queueSize64 = Finite 9\<rparr>"
  using timestamp_regression64
    [of "Finite 9" 25
        "\<lparr>bucketCapacity64 = Finite 9, leakRatePerSecond64 = Finite 25, userLimits64 = Map.empty\<rparr>"
        "[(''user1'', Finite 280)]" "''user1''"
        "\<lparr>lastLeakTime64 = Finite 280, queueSize64 = Finite 1\<rparr>" "Finite 0"]
  by (simp add: problem_createLeakyBucketRateLimiter64_def run64
      round64_up [where k = 54] round64_up [where k = 50])

text \<open>
  C9 as stated does not hold. The constructor accepts a leak rate that is not positive,
  and then the leak count of a regressing call is not negative: with capacity 5 and
  leak rate \<open>- 2\<close>, after two calls at 10000 a call at 0 computes the leak count 20,
  lowers the queue size from 2 to 0 before admitting, and moves \<open>lastLeakTime\<close> to 0.
  With the positive leak rate \<open>2 ^ (- 1074)\<close> the product underflows and the leak count
  of a regressing call is 0. And the amount by which the queue size grows is the floor of
  the rounded product, not of the exact one: with leak rate 25, \<open>lastLeakTime\<close> 280 and
  timestamp 0 it is 8, where the exact floor is \<open>- 7\<close>.
\<close>

theorem timestamp_regression_counterexample:
  "problem_createLeakyBucketRateLimiter64 (Finite 5) (Finite (- 2)) =
     Inr \<lparr>bucketCapacity64 = Finite 5, leakRatePerSecond64 = Finite (- 2), userLimits64 = Map.empty\<rparr> \<and>
   userLimits64 (stateAfter64
       \<lparr>bucketCapacity64 = Finite 5, leakRatePerSecond64 = Finite (- 2), userLimits64 = Map.empty\<rparr>
       [(''user1'', Finite 10000), (''user1'', Finite 10000)]) ''user1''
     = Some \<lparr>lastLeakTime64 = Finite 10000, queueSize64 = Finite 2\<rparr> \<and>
   less64 (Finite 0) (lastLeakTime64 \<lparr>lastLeakTime64 = Finite 10000, queueSize64 = Finite 2\<rparr>) \<and>
   requestsToLeak64 (Finite (- 2)) (Finite 10000) (Finite 0) = Finite 20 \<and>
   userLimits64 (fst (allowRequest64 (stateAfter64
       \<lparr>bucketCapacity64 = Finite 5, leakRatePerSecond64 = Finite (- 2), userLimits64 = Map.empty\<rparr>
       [(''user1'', Finite 10000), (''user1'', Finite 10000)]) ''user1'' (Finite 0))) ''user1''
     = Some \<lparr>lastLeakTime64 = Finite 0, queueSize64 = Finite 1\<rparr> \<and>
   less64 (Finite 0) (Finite (1 / 2 ^ 1074)) \<and>
   requestsToLeak64 (Finite (1 / 2 ^ 1074)) (Finite 1) (Finite 0) = Finite 0 \<and>
   requestsToLeak64 (Finite 25) (Finite 280) (Finite 0) = Finite (- 8) \<and>
   \<lfloor>((0 - 280) / 1000) * 25 :: rat\<rfloor> = - 7"
  by (simp add: problem_createLeakyBucketRateLimiter64_def run64 round64_underflow
      round64_up [where k = 62] round64_up [where k = 54] round64_up [where k = 50])

text \<open>
  C10, in the arithmetic the program runs on. A rejected call for a key that has a record
  \<open>r\<close> does not take a slot: the stored queue size is the size after the leak step,
  \<open>q = Math.max (0, queueSize r - leaked)\<close>, without the increment, and \<open>q\<close> is not below
  the capacity. When the leak count is a whole number that is not negative and the queue
  size before the call is a whole number from 0 to \<open>2 ^ 53\<close>, the leak step is exact and
  \<open>q\<close> is at most the size before the call; with a positive capacity that size was then
  at least \<open>capacity + leaked\<close>. The call is not state-neutral: the record keeps the
  leak, and \<open>lastLeakTime\<close> is the call's timestamp when \<open>leaked > 0\<close>. Such a call
  exists: there are a positive configuration and calls (with timestamps that are not
  negative, one of them regressing) after which a rejected call lowers the stored queue
  size and advances \<open>lastLeakTime\<close>.
\<close>

theorem rejected_call_keeps_leak64:
  assumes "userLimits64 L userId = Some r"
    and "\<not> snd (allowRequest64 L userId timestamp)"
  shows "(let leaked = requestsToLeak64 (leakRatePerSecond64 L) (lastLeakTime64 r) timestamp;
              q = max64 (Finite 0) (sub64 (queueSize64 r) leaked)
          in userLimits64 (fst (allowRequest64 L userId timestamp)) userId =
               Some \<lparr>lastLeakTime64 = (if less64 (Finite 0) leaked then timestamp else lastLeakTime64 r),
                     queueSize64 = q\<rparr> \<and>
             \<not> less64 q (bucketCapacity64 L) \<and>
             (\<forall>p n. queueSize64 r = Finite p \<and> p \<in> \<int> \<and> 0 \<le> p \<and> p \<le> 2 ^ 53 \<and>
                  leaked = Finite (of_int n) \<and> 0 \<le> n \<longrightarrow>
                  q = Finite (max 0 (p - of_int n)) \<and> le64 q (queueSize64 r) \<and>
                  (\<forall>c. bucketCapacity64 L = Finite c \<and> 0 < c \<longrightarrow> c + of_int n \<le> p))) \<and>
         (\<exists>c p M u k t s s'.
             problem_createLeakyBucketRateLimiter64 c p = Inr M \<and>
             less64 (Finite 0) c \<and> less64 (Finite 0) p \<and>
             list_all (\<lambda>d. le64 (Finite 0) (snd d)) u \<and> le64 (Finite 0) t \<and>
             userLimits64 (stateAfter64 M u) k = Some s \<and>
             \<not> snd (allowRequest64 (stateAfter64 M u) k t) \<and>
             userLimits64 (fst (allowRequest64 (stateAfter64 M u) k t)) k = Some s' \<and>
             less64 (queueSize64 s') (queueSize64 s) \<and>
             less64 (lastLeakTime64 s) t \<and> lastLeakTime64 s' = t)"
proof
  define leaked where "leaked = requestsToLeak64 (leakRatePerSecond64 L) (lastLeakTime64 r) timestamp"
  define q where "q = max64 (Finite 0) (sub64 (queueSize64 r) leaked)"
  have b: "snd (allowRequest64 L userId timestamp) = less64 q (bucketCapacity64 L)"
    unfolding q_def leaked_def using assms(1) by (rule allowRequest64_seen(1))
  with assms(2) have full: "\<not> less64 q (bucketCapacity64 L)"
    by simp
  have "userLimits64 (fst (allowRequest64 L userId timestamp)) userId =
      Some \<lparr>lastLeakTime64 = (if less64 (Finite 0) leaked then timestamp else lastLeakTime64 r),
            queueSize64 = (if less64 q (bucketCapacity64 L) then add64 q (Finite 1) else q)\<rparr>"
    unfolding q_def leaked_def using assms(1) by (rule allowRequest64_seen(2))
  then have u: "userLimits64 (fst (allowRequest64 L userId timestamp)) userId =
      Some \<lparr>lastLeakTime64 = (if less64 (Finite 0) leaked then timestamp else lastLeakTime64 r),
            queueSize64 = q\<rparr>"
    unfolding if_not_P [OF full] .
  have exact: "q = Finite (max 0 (p - of_int n)) \<and> le64 q (queueSize64 r) \<and>
      (\<forall>c. bucketCapacity64 L = Finite c \<and> 0 < c \<longrightarrow> c + of_int n \<le> p)"
    if "queueSize64 r = Finite p" "p \<in> \<int>" "0 \<le> p" "p \<le> 2 ^ 53"
      "leaked = Finite (of_int n)" "0 \<le> n" for p n
  proof -
    have "p - of_int n \<le> 2 ^ 53" using that(4,6) by simp
    with that(2) have "max64 (Finite 0) (sub64 (Finite p) (Finite (of_int n))) = Finite (max 0 (p - of_int n))"
      by (rule leak_step_exact)
    then have q: "q = Finite (max 0 (p - of_int n))"
      by (simp only: q_def that(1,5))
    have le: "max 0 (p - of_int n) \<le> p" using that(3,6) by simp
    have "c + of_int n \<le> p" if "bucketCapacity64 L = Finite c" "0 < c" for c
    proof -
      have "less64 q (bucketCapacity64 L) = (max 0 (p - of_int n) < c)"
        unfolding q that(1) by simp
      with full have "\<not> max 0 (p - of_int n) < c" by simp
      with that(2) show ?thesis by (simp add: max_def split: if_splits)
    qed
    with q le show ?thesis by (simp add: that(1))
  qed
  show "let leaked = requestsToLeak64 (leakRatePerSecond64 L) (lastLeakTime64 r) timestamp;
              q = max64 (Finite 0) (sub64 (queueSize64 r) leaked)
          in userLimits64 (fst (allowRequest64 L userId timestamp)) userId =
               Some \<lparr>lastLeakTime64 = (if less64 (Finite 0) leaked then timestamp else lastLeakTime64 r),
                     queueSize64 = q\<rparr> \<and>
             \<not> less64 q (bucketCapacity64 L) \<and>
             (\<forall>p n. queueSize64 r = Finite p \<and> p \<in> \<int> \<and> 0 \<le> p \<and> p \<le> 2 ^ 53 \<and>
                  leaked = Finite (of_int n) \<and> 0 \<le> n \<longrightarrow>
                  q = Finite (max 0 (p - of_int n)) \<and> le64 q (queueSize64 r) \<and>
                  (\<forall>c. bucketCapacity64 L = Finite c \<and> 0 < c \<longrightarrow> c + of_int n \<le> p))"
    unfolding leaked_def [symmetric] Let_def q_def [symmetric]
    using u full exact by blast
next
  show "\<exists>c p M u k t s s'.
             problem_createLeakyBucketRateLimiter64 c p = Inr M \<and>
             less64 (Finite 0) c \<and> less64 (Finite 0) p \<and>
             list_all (\<lambda>d. le64 (Finite 0) (snd d)) u \<and> le64 (Finite 0) t \<and>
             userLimits64 (stateAfter64 M u) k = Some s \<and>
             \<not> snd (allowRequest64 (stateAfter64 M u) k t) \<and>
             userLimits64 (fst (allowRequest64 (stateAfter64 M u) k t)) k = Some s' \<and>
             less64 (queueSize64 s') (queueSize64 s) \<and>
             less64 (lastLeakTime64 s) t \<and> lastLeakTime64 s' = t"
    apply (rule exI [of _ "Finite 5"])
    apply (rule exI [of _ "Finite 100"])
    apply (rule exI [of _ "\<lparr>bucketCapacity64 = Finite 5, leakRatePerSecond64 = Finite 100, userLimits64 = Map.empty\<rparr>"])
    apply (rule exI [of _ "[(''user1'', Finite 10000), (''user1'', Finite 0)]"])
    apply (rule exI [of _ "''user1''"])
    apply (rule exI [of _ "Finite 10570"])
    apply (rule exI [of _ "\<lparr>lastLeakTime64 = Finite 10000, queueSize64 = Finite 1001\<rparr>"])
    apply (rule exI [of _ "\<lparr>lastLeakTime64 = Finite 10570, queueSize64 = Finite 945\<rparr>"])
    apply (simp add: problem_createLeakyBucketRateLimiter64_def run64
        round64_up [where k = 53] round64_up [where k = 47])
    done
qed

theorem rejected_call_keeps_leak64_witness:
  "userLimits64 \<lparr>bucketCapacity64 = Finite 5, leakRatePerSecond64 = Finite 100,
       userLimits64 = [''user1'' \<mapsto> \<lparr>lastLeakTime64 = Finite 10000, queueSize64 = Finite 1001\<rparr>]\<rparr>
       ''user1''
     = Some \<lparr>lastLeakTime64 = Finite 10000, queueSize64 = Finite 1001\<rparr> \<and>
   \<not> snd (allowRequest64 \<lparr>bucketCapacity64 = Finite 5, leakRatePerSecond64 = Finite 100,
       userLimits64 = [''user1'' \<mapsto> \<lparr>lastLeakTime64 = Finite 10000, queueSize64 = Finite 1001\<rparr>]\<rparr>
       ''user1'' (Finite 10570)) \<and>
   userLimits64 (fst (allowRequest64 \<lparr>bucketCapacity64 = Finite 5, leakRatePerSecond64 = Finite 100,
       userLimits64 = [''user1'' \<mapsto> \<lparr>lastLeakTime64 = Finite 10000, queueSize64 = Finite 1001\<rparr>]\<rparr>
       ''user1'' (Finite 10570))) ''user1''
     = Some \<lparr>lastLeakTime64 = Finite 10570, queueSize64 = Finite 945\<rparr>"
  using rejected_call_keeps_leak64
    [of "\<lparr>bucketCapacity64 = Finite 5, leakRatePerSecond64 = Finite 100,
           userLimits64 = [''user1'' \<mapsto> \<lparr>lastLeakTime64 = Finite 10000, queueSize64 = Finite 1001\<rparr>]\<rparr>"
        "''user1''" "\<lparr>lastLeakTime64 = Finite 10000, queueSize64 = Finite 1001\<rparr>" "Finite 10570"]
  by (simp add: run64 round64_up [where k = 53] round64_up [where k = 47])

end
